theory Spec2Isabelle
  imports Main "HOL-Library.Sublist"
begin

section \<open>Strings\<close>

text \<open>
  A Python \<open>str\<close> is a sequence of code points. The model uses \<^typ>\<open>string\<close> and reads
  each \<^typ>\<open>char\<close> as the code point of the same number, so it covers the texts whose
  code points are below 256. A text file is the text its reader decodes.
\<close>

definition RANGE_MARKER :: string where
  "RANGE_MARKER = ''-->''"

definition newline :: char where
  "newline = CHR 0x0A"

text \<open>\<open>sub in s\<close>: \<open>sub\<close> occurs in \<open>s\<close> as a contiguous substring.\<close>

fun contains :: "string \<Rightarrow> string \<Rightarrow> bool" where
  "contains sub [] = (sub = [])"
| "contains sub (c # cs) = (prefix sub (c # cs) \<or> contains sub cs)"

text \<open>
  \<open>s.split(sep)\<close> for a separator that is not empty: the occurrences of \<open>sep\<close> are
  found from the left and do not overlap; the pieces between them are returned, so
  the result has one piece more than there are occurrences. (Python raises on an empty
  separator; the only separator used is \<^const>\<open>RANGE_MARKER\<close>.)
\<close>

function split :: "string \<Rightarrow> string \<Rightarrow> string list" where
  "split sep [] = [[]]"
| "split sep (c # cs) =
     (if sep \<noteq> [] \<and> prefix sep (c # cs)
      then [] # split sep (drop (length sep) (c # cs))
      else (case split sep cs of [] \<Rightarrow> [[c]] | p # ps \<Rightarrow> (c # p) # ps))"
  by pat_completeness auto
termination
  by (relation "measure (\<lambda>(sep, s). length s)") (auto simp: neq_Nil_conv)

text \<open>
  \<open>str.isspace\<close> on one character, which is also what the regular expression \<open>\s\<close>
  matches: below 256 these are the code points 9 to 13, 28 to 32, 133 and 160.
\<close>

definition isspace :: "char \<Rightarrow> bool" where
  "isspace c = ((of_char c :: nat) \<in> {9, 10, 11, 12, 13, 28, 29, 30, 31, 32, 133, 160})"

text \<open>\<open>s.strip()\<close>: drop the whitespace at both ends.\<close>

definition strip :: "string \<Rightarrow> string" where
  "strip s = rev (dropWhile isspace (rev (dropWhile isspace s)))"

text \<open>Decimal digits (the regular expression \<open>\d\<close>; below 256 only \<open>0\<close> to \<open>9\<close>).\<close>

definition in_range :: "nat \<Rightarrow> nat \<Rightarrow> char \<Rightarrow> bool" where
  "in_range lo hi c = (lo \<le> of_char c \<and> (of_char c :: nat) \<le> hi)"

definition isdigit :: "char \<Rightarrow> bool" where
  "isdigit c = in_range 48 57 c"

definition digit_value :: "char \<Rightarrow> int" where
  "digit_value c = int (of_char c) - 48"

text \<open>\<open>int(s)\<close> on a string of decimal digits.\<close>

definition int_of_digits :: "string \<Rightarrow> int" where
  "int_of_digits s = foldl (\<lambda>a c. 10 * a + digit_value c) 0 s"

definition digit_char :: "int \<Rightarrow> char" where
  "digit_char n = char_of (48 + nat n)"

text \<open>\<open>'%02d' % n\<close> and \<open>'%06d' % n\<close> for \<open>n\<close> within the width.\<close>

definition two_digits :: "int \<Rightarrow> string" where
  "two_digits n = [digit_char (n div 10 mod 10), digit_char (n mod 10)]"

definition six_digits :: "int \<Rightarrow> string" where
  "six_digits n =
     [digit_char (n div 100000 mod 10), digit_char (n div 10000 mod 10),
      digit_char (n div 1000 mod 10), digit_char (n div 100 mod 10),
      digit_char (n div 10 mod 10), digit_char (n mod 10)]"

section \<open>Exceptions\<close>

text \<open>
  An exception is its class and its arguments. \<open>ValueError\<close> also keeps the exception it
  was raised \<open>from\<close>. \<open>NotModelled\<close> is not a Python exception: it marks a time format
  outside the fragment of the format language that this theory models.
\<close>

datatype detail =
    TimeDataMismatch string string  \<comment> \<open>time data .. does not match format ..\<close>
  | UnconvertedData string          \<comment> \<open>unconverted data remains: ..\<close>
  | SecondOutOfRange                \<comment> \<open>second must be in 0..59\<close>
  | NotEnoughValues nat             \<comment> \<open>not enough values to unpack (expected 2, got ..)\<close>
  | TooManyValues                   \<comment> \<open>too many values to unpack (expected 2)\<close>
  | IncorrectFormat                 \<comment> \<open>Failed to parse SRT file: incorrect format\<close>
  | DaysTooLarge                    \<comment> \<open>days=..; must have magnitude <= 999999999\<close>
  | DateOutOfRange                  \<comment> \<open>date value out of range\<close>

datatype exn =
    ValueError detail "exn option"
  | OverflowError detail
  | FileNotFoundError string
  | NotModelled string

fun is_ValueError :: "exn \<Rightarrow> bool" where
  "is_ValueError (ValueError _ _) = True"
| "is_ValueError _ = False"

section \<open>Time formats\<close>

text \<open>
  The fragment of the strptime/strftime notation that is modelled: the directives
  \<open>%H\<close>, \<open>%M\<close>, \<open>%S\<close> and \<open>%f\<close>, each at most once, and literal characters that are
  printable ASCII, neither a letter nor \<open>%\<close> nor a space. Such a literal stands for
  itself both in the regular expression that strptime builds (letters would match in
  either case, whitespace would match any run of whitespace) and in strftime.
\<close>

datatype directive = Dir_H | Dir_M | Dir_S | Dir_f

datatype fmt_item = Directive directive | Literal char

definition directive_of :: "char \<Rightarrow> directive option" where
  "directive_of c =
     (if c = CHR ''H'' then Some Dir_H
      else if c = CHR ''M'' then Some Dir_M
      else if c = CHR ''S'' then Some Dir_S
      else if c = CHR ''f'' then Some Dir_f
      else None)"

definition plain_literal :: "char \<Rightarrow> bool" where
  "plain_literal c =
     (in_range 33 126 c \<and> c \<noteq> CHR ''%'' \<and> \<not> in_range 65 90 c \<and> \<not> in_range 97 122 c)"

fun format_items :: "string \<Rightarrow> fmt_item list option" where
  "format_items [] = Some []"
| "format_items [c] = (if plain_literal c then Some [Literal c] else None)"
| "format_items (c # d # cs) =
     (if c = CHR ''%''
      then (case directive_of d of
              None \<Rightarrow> None
            | Some x \<Rightarrow> map_option ((#) (Directive x)) (format_items cs))
      else if plain_literal c then map_option ((#) (Literal c)) (format_items (d # cs))
      else None)"

fun directives :: "fmt_item list \<Rightarrow> directive list" where
  "directives [] = []"
| "directives (Directive d # fs) = d # directives fs"
| "directives (Literal c # fs) = directives fs"

definition compile_format :: "string \<Rightarrow> fmt_item list option" where
  "compile_format fmt =
     (case format_items fmt of
        None \<Rightarrow> None
      | Some items \<Rightarrow> if distinct (directives items) then Some items else None)"

definition DEFAULT_FORMAT :: string where
  "DEFAULT_FORMAT = ''%H:%M:%S,%f''"

text \<open>The items of the default format.\<close>

definition default_items :: "fmt_item list" where
  "default_items =
     [Directive Dir_H, Literal (CHR '':''), Directive Dir_M, Literal (CHR '':''),
      Directive Dir_S, Literal (CHR '',''), Directive Dir_f]"

section \<open>datetime\<close>

text \<open>
  A \<open>datetime\<close> value. No modelled directive shows the date, so the date is kept as its
  proleptic Gregorian ordinal (\<open>date.toordinal()\<close>): day 1 is 0001-01-01, the first
  representable date, day 3652059 is 9999-12-31, the last one, and 1900-01-01, the date
  strptime gives to a bare time of day, is day 693596.
\<close>

record datetime =
  ordinal :: int
  hour :: int
  minute :: int
  second :: int
  microsecond :: int

definition MIN_ORDINAL :: int where "MIN_ORDINAL = 1"
definition MAX_ORDINAL :: int where "MAX_ORDINAL = 3652059"
definition EPOCH_ORDINAL :: int where "EPOCH_ORDINAL = 693596"
definition DAY_US :: int where "DAY_US = 86400000000"

text \<open>The fields of a time of day are within their ranges.\<close>

definition valid_time :: "datetime \<Rightarrow> bool" where
  "valid_time t =
     (0 \<le> hour t \<and> hour t < 24 \<and> 0 \<le> minute t \<and> minute t < 60
      \<and> 0 \<le> second t \<and> second t < 60 \<and> 0 \<le> microsecond t \<and> microsecond t < 1000000)"

text \<open>
  What reading a timestamp written by strftime gives: the placeholder date, and of the time
  the fields that the format shows; a field it does not show is 0.
\<close>

definition shown :: "fmt_item list \<Rightarrow> datetime \<Rightarrow> datetime" where
  "shown items t =
     \<lparr>ordinal = EPOCH_ORDINAL,
      hour = (if Dir_H \<in> set (directives items) then hour t else 0),
      minute = (if Dir_M \<in> set (directives items) then minute t else 0),
      second = (if Dir_S \<in> set (directives items) then second t else 0),
      microsecond = (if Dir_f \<in> set (directives items) then microsecond t else 0)\<rparr>"

subsection \<open>strptime\<close>

text \<open>
  strptime turns the format into a regular expression, one named group per directive:
  \<open>%H\<close> is \<open>2[0-3]|[0-1]\d|\d\<close>, \<open>%M\<close> is \<open>[0-5]\d|\d\<close>, \<open>%S\<close> is
  \<open>6[0-1]|[0-5]\d|\d\<close> and \<open>%f\<close> is \<open>[0-9]{1,6}\<close>. The matcher backtracks: it tries the
  alternatives from the left and the longest repetition first. \<open>alternatives d s\<close> lists,
  in that order, the ways group \<open>d\<close> can match at the front of \<open>s\<close>, each as the matched
  text and the rest.
\<close>

fun two_chars :: "(char \<Rightarrow> bool) \<Rightarrow> (char \<Rightarrow> bool) \<Rightarrow> string \<Rightarrow> (string \<times> string) list" where
  "two_chars p q (a # b # r) = (if p a \<and> q b then [([a, b], r)] else [])"
| "two_chars p q _ = []"

fun one_char :: "(char \<Rightarrow> bool) \<Rightarrow> string \<Rightarrow> (string \<times> string) list" where
  "one_char p (a # r) = (if p a then [([a], r)] else [])"
| "one_char p [] = []"

definition up_to_six :: "string \<Rightarrow> (string \<times> string) list" where
  "up_to_six s =
     map (\<lambda>k. (take k s, drop k s)) (rev [1 ..< Suc (min 6 (length (takeWhile isdigit s)))])"

fun alternatives :: "directive \<Rightarrow> string \<Rightarrow> (string \<times> string) list" where
  "alternatives Dir_H s =
     two_chars (in_range 50 50) (in_range 48 51) s @ two_chars (in_range 48 49) isdigit s
       @ one_char isdigit s"
| "alternatives Dir_M s = two_chars (in_range 48 53) isdigit s @ one_char isdigit s"
| "alternatives Dir_S s =
     two_chars (in_range 54 54) (in_range 48 49) s @ two_chars (in_range 48 53) isdigit s
       @ one_char isdigit s"
| "alternatives Dir_f s = up_to_six s"

text \<open>The least number that the group of a directive cannot hold.\<close>

fun group_bound :: "directive \<Rightarrow> int" where
  "group_bound Dir_H = 24"
| "group_bound Dir_M = 60"
| "group_bound Dir_S = 62"
| "group_bound Dir_f = 1000000"

text \<open>
  All the matches of the whole expression at the front of the data, in the order the
  matcher finds them: the groups with their texts, and what is left of the data.
  \<open>re.match\<close> returns the first.
\<close>

fun matches :: "fmt_item list \<Rightarrow> string \<Rightarrow> ((directive \<times> string) list \<times> string) list" where
  "matches [] s = [([], s)]"
| "matches (Literal c # fs) s =
     (case s of [] \<Rightarrow> [] | a # r \<Rightarrow> if a = c then matches fs r else [])"
| "matches (Directive d # fs) s =
     concat (map (\<lambda>(m, r). map (\<lambda>(g, r'). ((d, m) # g, r')) (matches fs r))
                 (alternatives d s))"

text \<open>A group's number, 0 when the format has no such directive.\<close>

definition group_int :: "(directive \<times> string) list \<Rightarrow> directive \<Rightarrow> int" where
  "group_int g d = (case map_of g d of None \<Rightarrow> 0 | Some s \<Rightarrow> int_of_digits s)"

text \<open>\<open>%f\<close> is padded with zeros on the right to six digits before it is read.\<close>

definition fraction_int :: "(directive \<times> string) list \<Rightarrow> int" where
  "fraction_int g =
     (case map_of g Dir_f of
        None \<Rightarrow> 0
      | Some s \<Rightarrow> int_of_digits (s @ replicate (6 - length s) (CHR ''0'')))"

text \<open>
  \<open>datetime.strptime(data, fmt)\<close>. No match, or a match that leaves data over, is a
  ValueError; so is a second of 60 or 61, which the expression accepts and the datetime
  constructor refuses.
\<close>

definition strptime :: "string \<Rightarrow> string \<Rightarrow> exn + datetime" where
  "strptime data fmt =
     (case compile_format fmt of
        None \<Rightarrow> Inl (NotModelled fmt)
      | Some items \<Rightarrow>
          (case matches items data of
             [] \<Rightarrow> Inl (ValueError (TimeDataMismatch data fmt) None)
           | (g, rest) # _ \<Rightarrow>
               if rest \<noteq> [] then Inl (ValueError (UnconvertedData rest) None)
               else if group_int g Dir_S > 59 then Inl (ValueError SecondOutOfRange None)
               else Inr \<lparr>ordinal = EPOCH_ORDINAL, hour = group_int g Dir_H,
                         minute = group_int g Dir_M, second = group_int g Dir_S,
                         microsecond = fraction_int g\<rparr>))"

subsection \<open>strftime\<close>

fun render :: "datetime \<Rightarrow> fmt_item \<Rightarrow> string" where
  "render t (Literal c) = [c]"
| "render t (Directive Dir_H) = two_digits (hour t)"
| "render t (Directive Dir_M) = two_digits (minute t)"
| "render t (Directive Dir_S) = two_digits (second t)"
| "render t (Directive Dir_f) = six_digits (microsecond t)"

definition strftime :: "datetime \<Rightarrow> string \<Rightarrow> exn + string" where
  "strftime t fmt =
     (case compile_format fmt of
        None \<Rightarrow> Inl (NotModelled fmt)
      | Some items \<Rightarrow> Inr (concat (map (render t) items)))"

subsection \<open>timedelta and addition\<close>

text \<open>
  \<open>timedelta(milliseconds=n)\<close>, kept as its total of microseconds. It is normalised into
  days, seconds and microseconds and refused when the days exceed 999999999 in magnitude.
\<close>

definition timedelta :: "int \<Rightarrow> exn + int" where
  "timedelta ms =
     (if \<bar>(ms * 1000) div DAY_US\<bar> > 999999999 then Inl (OverflowError DaysTooLarge)
      else Inr (ms * 1000))"

definition time_of_day_us :: "datetime \<Rightarrow> int" where
  "time_of_day_us t = ((hour t * 60 + minute t) * 60 + second t) * 1000000 + microsecond t"

text \<open>
  \<open>t + delta\<close>: the microseconds carry into the days (floor division, as in Python), and a
  date outside the years 1 to 9999 is an OverflowError.
\<close>

definition datetime_add :: "datetime \<Rightarrow> int \<Rightarrow> exn + datetime" where
  "datetime_add t delta =
     (let us = time_of_day_us t + delta;
          day = ordinal t + us div DAY_US;
          tod = us mod DAY_US
      in if day < MIN_ORDINAL \<or> MAX_ORDINAL < day then Inl (OverflowError DateOutOfRange)
         else Inr \<lparr>ordinal = day, hour = tod div 3600000000,
                   minute = tod div 60000000 mod 60, second = tod div 1000000 mod 60,
                   microsecond = tod mod 1000000\<rparr>)"

text \<open>
  The day on which \<open>t + timedelta(milliseconds=ms)\<close> falls, and whether a day is one that
  a \<open>datetime\<close> can hold.
\<close>

definition day_of_sum :: "datetime \<Rightarrow> int \<Rightarrow> int" where
  "day_of_sum t ms = ordinal t + (time_of_day_us t + ms * 1000) div DAY_US"

definition date_in_range :: "int \<Rightarrow> bool" where
  "date_in_range day = (MIN_ORDINAL \<le> day \<and> day \<le> MAX_ORDINAL)"

section \<open>The program\<close>

text \<open>
  Unpacking an iterable into two targets. The iterable is a generator, so the items are
  computed one at a time and an item that raises ends the unpacking with its exception;
  after the second item a third is asked for, to see that there is none.
\<close>

fun unpack2 :: "(exn + 'a) list \<Rightarrow> exn + ('a \<times> 'a)" where
  "unpack2 [] = Inl (ValueError (NotEnoughValues 0) None)"
| "unpack2 (Inl e # _) = Inl e"
| "unpack2 [Inr a] = Inl (ValueError (NotEnoughValues 1) None)"
| "unpack2 (Inr a # Inl e # _) = Inl e"
| "unpack2 [Inr a, Inr b] = Inr (a, b)"
| "unpack2 (Inr a # Inr b # Inl e # _) = Inl e"
| "unpack2 (Inr a # Inr b # Inr c # _) = Inl (ValueError TooManyValues None)"

text \<open>Line 52 of the source: split on the marker, strip and parse each part.\<close>

definition parse_range :: "string \<Rightarrow> string \<Rightarrow> exn + (datetime \<times> datetime)" where
  "parse_range line time_format =
     unpack2 (map (\<lambda>x. strptime (strip x) time_format) (split RANGE_MARKER line))"

definition shifted :: "datetime \<Rightarrow> int \<Rightarrow> string \<Rightarrow> exn + string" where
  "shifted ts offset time_format =
     (case datetime_add ts offset of
        Inl e \<Rightarrow> Inl e
      | Inr t \<Rightarrow> strftime t time_format)"

definition increment_line :: "string \<Rightarrow> int \<Rightarrow> string \<Rightarrow> exn + string" where
  "increment_line line offset_ms time_format =
     (case parse_range line time_format of
        Inl e \<Rightarrow> Inl e
      | Inr (ts1, ts2) \<Rightarrow>
          (case timedelta offset_ms of
             Inl e \<Rightarrow> Inl e
           | Inr offset \<Rightarrow>
               (case shifted ts1 offset time_format of
                  Inl e \<Rightarrow> Inl e
                | Inr s1 \<Rightarrow>
                    (case shifted ts2 offset time_format of
                       Inl e \<Rightarrow> Inl e
                     | Inr s2 \<Rightarrow> Inr (s1 @ '' --> '' @ s2 @ [newline])))))"

text \<open>
  Iterating over a text file gives its lines, each with its line end; only the last
  line can be without one.
\<close>

fun readlines :: "string \<Rightarrow> string list" where
  "readlines [] = []"
| "readlines (c # cs) =
     (if c = newline then [c] # readlines cs
      else (case readlines cs of [] \<Rightarrow> [[c]] | l # ls \<Rightarrow> (c # l) # ls))"

text \<open>The loop of \<open>generate_new_srt_file\<close> (lines 27 to 39): the list \<open>lines\<close> it builds.\<close>

fun shift_lines :: "string list \<Rightarrow> int \<Rightarrow> string \<Rightarrow> exn + string list" where
  "shift_lines [] offset_ms time_format = Inr []"
| "shift_lines (line # rest) offset_ms time_format =
     (if contains RANGE_MARKER line
      then (case increment_line line offset_ms time_format of
              Inl e \<Rightarrow> Inl e
            | Inr new_line \<Rightarrow>
                (case shift_lines rest offset_ms time_format of
                   Inl e \<Rightarrow> Inl e
                 | Inr lines \<Rightarrow> Inr (new_line # lines)))
      else (case shift_lines rest offset_ms time_format of
              Inl e \<Rightarrow> Inl e
            | Inr lines \<Rightarrow> Inr (line # lines)))"


text \<open>
  The file system maps a path to the text of the file there. The output file is opened
  only after the loop has ended, and then holds the lines written one after the other.
  What the verbose mode prints is not part of the state.
\<close>

type_synonym filesystem = "string \<rightharpoonup> string"

definition generate_new_srt_file ::
  "filesystem \<Rightarrow> string \<Rightarrow> string \<Rightarrow> int \<Rightarrow> string \<Rightarrow> (exn + unit) \<times> filesystem" where
  "generate_new_srt_file fs srt_file output_srt_file offset_ms time_format =
     (case fs srt_file of
        None \<Rightarrow> (Inl (FileNotFoundError srt_file), fs)
      | Some text \<Rightarrow>
          (case shift_lines (readlines text) offset_ms time_format of
             Inl e \<Rightarrow> (Inl e, fs)
           | Inr lines \<Rightarrow> (Inr (), fs(output_srt_file \<mapsto> concat lines))))"

record args =
  input_file :: string
  output_file :: string
  delta :: int
  time_format :: "string option"
  verbose :: bool



section \<open>Sample files\<close>



definition broken_text :: string where
  "broken_text = ''bad --> 00:00:01,000'' @ [newline]"


definition broken_fs :: filesystem where
  "broken_fs = [''in.srt'' \<mapsto> broken_text]"






section \<open>The loop and the files\<close>



lemma shift_lines_range:
  "shift_lines ls d fmt = Inr out \<Longrightarrow> k < length ls \<Longrightarrow>
     contains RANGE_MARKER (ls ! k) \<Longrightarrow> increment_line (ls ! k) d fmt = Inr (out ! k)"
proof (induction ls arbitrary: out k)
  case Nil
  then show ?case by simp
next
  case (Cons l ls)
  then show ?case
    by (cases k) (auto split: if_splits sum.splits)
qed

lemma shift_lines_error:
  "l \<in> set ls \<Longrightarrow> contains RANGE_MARKER l \<Longrightarrow> increment_line l d fmt = Inl e \<Longrightarrow>
     \<exists>e'. shift_lines ls d fmt = Inl e'"
  by (induction ls) (auto split: if_splits sum.splits)









text \<open>
  C3: what \<open>increment_line\<close> returns for the line \<open>00:00:01,000 --> 00:00:03,500\<close> with the
  default format and offset +1500 ms. The fractions come out with six digits.
\<close>

theorem end_to_end_example_output:
  "increment_line (''00:00:01,000 --> 00:00:03,500'' @ [newline]) 1500 DEFAULT_FORMAT =
     Inr (''00:00:02,500000 --> 00:00:05,000000'' @ [newline])"
  by code_simp

text \<open>
  C7: what \<open>increment_line\<close> returns for the line \<open>00:00:05,000 --> 00:00:10,000\<close> with the
  default format and offset -3000 ms. The fractions come out with six digits.
\<close>

theorem negative_offset_example_output:
  "increment_line ''00:00:05,000 --> 00:00:10,000'' (- 3000) DEFAULT_FORMAT =
     Inr (''00:00:02,000000 --> 00:00:07,000000'' @ [newline])"
  by code_simp

section \<open>Lines and errors\<close>

lemma increment_line_Inr:
  assumes "increment_line line d fmt = Inr out"
  shows "\<exists>ts1 ts2 offset s1 s2. parse_range line fmt = Inr (ts1, ts2)
           \<and> timedelta d = Inr offset \<and> shifted ts1 offset fmt = Inr s1
           \<and> shifted ts2 offset fmt = Inr s2 \<and> out = s1 @ '' --> '' @ s2 @ [newline]"
  using assms unfolding increment_line_def
  by (auto split: sum.splits prod.splits)

lemma increment_line_parse_error:
  "parse_range line fmt = Inl e \<Longrightarrow> increment_line line d fmt = Inl e"
  by (simp add: increment_line_def)


lemma generate_failure:
  "generate_new_srt_file fs i out d fmt = (Inl e, fs') \<Longrightarrow> fs' = fs"
  unfolding generate_new_srt_file_def
  by (auto split: option.splits sum.splits)


text \<open>
  C8 (as amended): a transformed range line is the start timestamp shifted and formatted
  again, the separator \<open>" --> "\<close>, the end timestamp shifted and formatted again, and one
  newline character, whatever the line end of the original line was.
\<close>

theorem range_line_serialisation:
  assumes "increment_line line d fmt = Inr out"
  shows "\<exists>ts1 ts2 offset t1 t2 s1 s2. parse_range line fmt = Inr (ts1, ts2)
           \<and> timedelta d = Inr offset
           \<and> datetime_add ts1 offset = Inr t1 \<and> strftime t1 fmt = Inr s1
           \<and> datetime_add ts2 offset = Inr t2 \<and> strftime t2 fmt = Inr s2
           \<and> out = s1 @ '' --> '' @ s2 @ [newline]"
proof -
  from increment_line_Inr [OF assms] obtain ts1 ts2 offset s1 s2 where
    p: "parse_range line fmt = Inr (ts1, ts2)" "timedelta d = Inr offset"
    and s: "shifted ts1 offset fmt = Inr s1" "shifted ts2 offset fmt = Inr s2"
    and o: "out = s1 @ '' --> '' @ s2 @ [newline]"
    by blast
  from s obtain t1 t2 where
    "datetime_add ts1 offset = Inr t1" "strftime t1 fmt = Inr s1"
    "datetime_add ts2 offset = Inr t2" "strftime t2 fmt = Inr s2"
    unfolding shifted_def by (auto split: sum.splits)
  with p o show ?thesis by blast
qed

lemma unterminated_line:
  "increment_line ''00:00:01,000000 --> 00:00:03,500000'' 0 DEFAULT_FORMAT =
     Inr (''00:00:01,000000 --> 00:00:03,500000'' @ [newline])"
  by code_simp

theorem range_line_serialisation_witness:
  "increment_line ''00:00:01,000000 --> 00:00:03,500000'' 0 DEFAULT_FORMAT =
     Inr (''00:00:01,000000 --> 00:00:03,500000'' @ [newline])
   \<and> (\<exists>s1 s2. ''00:00:01,000000 --> 00:00:03,500000'' @ [newline] =
          s1 @ '' --> '' @ s2 @ [newline])"
  using range_line_serialisation [OF unterminated_line] unterminated_line
  by blast

text \<open>
  The claim as stated fails on a last line that has no line end: the line written ends
  with a newline character that the original line did not have.
\<close>

theorem terminator_counterexample:
  "increment_line ''00:00:01,000000 --> 00:00:03,500000'' 0 DEFAULT_FORMAT =
     Inr (''00:00:01,000000 --> 00:00:03,500000'' @ [newline])"
  by code_simp





text \<open>
  C10: if a range line of the input fails to parse, the run ends with an error and the
  file system is as it was; the output file is neither created nor changed.
\<close>

theorem parse_failure_leaves_files_untouched:
  assumes "fs srt = Some text" and "line \<in> set (readlines text)"
    and "contains RANGE_MARKER line" and "parse_range line fmt = Inl e"
  shows "\<exists>e'. generate_new_srt_file fs srt out d fmt = (Inl e', fs)"
proof -
  from shift_lines_error [OF assms(2) assms(3) increment_line_parse_error [OF assms(4)]]
  obtain e' where "shift_lines (readlines text) d fmt = Inl e'"
    by blast
  with assms(1) show ?thesis
    by (simp add: generate_new_srt_file_def)
qed

lemma broken_line:
  "broken_text \<in> set (readlines broken_text) \<and> contains RANGE_MARKER broken_text
   \<and> parse_range broken_text DEFAULT_FORMAT =
       Inl (ValueError (TimeDataMismatch ''bad'' ''%H:%M:%S,%f'') None)"
  by code_simp

theorem parse_failure_leaves_files_untouched_witness:
  "broken_fs ''in.srt'' = Some broken_text
   \<and> broken_text \<in> set (readlines broken_text) \<and> contains RANGE_MARKER broken_text
   \<and> parse_range broken_text DEFAULT_FORMAT =
       Inl (ValueError (TimeDataMismatch ''bad'' ''%H:%M:%S,%f'') None)
   \<and> (\<exists>e'. generate_new_srt_file broken_fs ''in.srt'' ''out.srt'' 1500 DEFAULT_FORMAT =
              (Inl e', broken_fs))
   \<and> broken_fs ''out.srt'' = None"
proof -
  have s: "broken_fs ''in.srt'' = Some broken_text"
    by (simp add: broken_fs_def)
  have l: "broken_text \<in> set (readlines broken_text)"
    and c: "contains RANGE_MARKER broken_text"
    and p: "parse_range broken_text DEFAULT_FORMAT =
       Inl (ValueError (TimeDataMismatch ''bad'' ''%H:%M:%S,%f'') None)"
    using broken_line by blast+
  have n: "broken_fs ''out.srt'' = None"
    by (simp add: broken_fs_def)
  from parse_failure_leaves_files_untouched
    [where fs = broken_fs and srt = "''in.srt''" and out = "''out.srt''" and d = 1500,
     OF s l c p] s l c p n
  show ?thesis by blast
qed

section \<open>Digits and groups\<close>

lemma int_of_digits_snoc:
  "int_of_digits (s @ [c]) = 10 * int_of_digits s + digit_value c"
  by (simp add: int_of_digits_def)

lemma isdigit_value: "isdigit c \<Longrightarrow> 0 \<le> digit_value c \<and> digit_value c \<le> 9"
  by (auto simp: isdigit_def in_range_def digit_value_def)

lemma int_of_digits_bounds:
  "\<forall>c \<in> set s. isdigit c \<Longrightarrow> 0 \<le> int_of_digits s \<and> int_of_digits s < 10 ^ length s"
proof (induction s rule: rev_induct)
  case Nil
  then show ?case by (simp add: int_of_digits_def)
next
  case (snoc c s)
  then have "0 \<le> int_of_digits s" "int_of_digits s < 10 ^ length s"
    "0 \<le> digit_value c" "digit_value c \<le> 9"
    using isdigit_value by auto
  then show ?case
    by (simp add: int_of_digits_snoc)
qed

lemma digit_char_code: "0 \<le> n \<Longrightarrow> n < 10 \<Longrightarrow> (of_char (digit_char n) :: nat) = 48 + nat n"
  by (simp add: digit_char_def)

lemma digit_char_value: "0 \<le> n \<Longrightarrow> n < 10 \<Longrightarrow> digit_value (digit_char n) = n"
  by (simp add: digit_value_def digit_char_code)

lemma digit_char_isdigit: "0 \<le> n \<Longrightarrow> n < 10 \<Longrightarrow> isdigit (digit_char n)"
  by (simp add: isdigit_def in_range_def digit_char_code)

lemma two_chars_elem:
  "(m, r) \<in> set (two_chars p q s) \<Longrightarrow> \<exists>a b. m = [a, b] \<and> s = a # b # r \<and> p a \<and> q b"
  by (cases "(p, q, s)" rule: two_chars.cases) (auto split: if_splits)

lemma one_char_elem:
  "(m, r) \<in> set (one_char p s) \<Longrightarrow> \<exists>a. m = [a] \<and> s = a # r \<and> p a"
  by (cases "(p, s)" rule: one_char.cases) (auto split: if_splits)

lemma int_of_digits_two: "int_of_digits [a, b] = 10 * digit_value a + digit_value b"
  by (simp add: int_of_digits_def)

lemma int_of_digits_one: "int_of_digits [a] = digit_value a"
  by (simp add: int_of_digits_def)

lemma up_to_six_elem:
  assumes "(m, r) \<in> set (up_to_six s)"
  shows "s = m @ r \<and> m \<noteq> [] \<and> length m \<le> 6 \<and> (\<forall>c \<in> set m. isdigit c)"
proof -
  have "set (up_to_six s) = (\<lambda>k. (take k s, drop k s)) `
      {1 ..< Suc (min 6 (length (takeWhile isdigit s)))}"
    unfolding up_to_six_def by (simp only: set_map set_rev set_upt)
  with assms have "(m, r) \<in> (\<lambda>k. (take k s, drop k s)) `
      {1 ..< Suc (min 6 (length (takeWhile isdigit s)))}"
    by simp
  then obtain k where k: "1 \<le> k" "k \<le> 6" "k \<le> length (takeWhile isdigit s)"
    and m: "m = take k s" and r: "r = drop k s"
    by auto
  have "take k s = take k (takeWhile isdigit s)"
    using k(3) by (metis append_eq_conv_conj append_take_drop_id takeWhile_dropWhile_id take_append
        diff_is_0_eq' take_0 append_Nil2)
  then have "\<forall>c \<in> set m. isdigit c"
    using m by (metis in_set_takeD set_takeWhileD)
  moreover have "m \<noteq> []"
    using k m length_takeWhile_le [of isdigit s] by auto
  ultimately show ?thesis
    using k m r by auto
qed

lemma alternatives_elem:
  assumes "(m, r) \<in> set (alternatives d s)"
  shows "s = m @ r \<and> (\<forall>c \<in> set m. isdigit c) \<and> 0 \<le> int_of_digits m
           \<and> int_of_digits m < group_bound d \<and> length m \<le> 6"
proof (cases d)
  case Dir_H
  with assms show ?thesis
    by (auto dest!: two_chars_elem one_char_elem
        simp: int_of_digits_two int_of_digits_one isdigit_def in_range_def digit_value_def)
next
  case Dir_M
  with assms show ?thesis
    by (auto dest!: two_chars_elem one_char_elem
        simp: int_of_digits_two int_of_digits_one isdigit_def in_range_def digit_value_def)
next
  case Dir_S
  with assms show ?thesis
    by (auto dest!: two_chars_elem one_char_elem
        simp: int_of_digits_two int_of_digits_one isdigit_def in_range_def digit_value_def)
next
  case Dir_f
  with assms have u: "s = m @ r" "m \<noteq> []" "length m \<le> 6" "\<forall>c \<in> set m. isdigit c"
    using up_to_six_elem by auto
  from int_of_digits_bounds [OF u(4)] have "0 \<le> int_of_digits m"
    and "int_of_digits m < 10 ^ length m"
    by auto
  moreover have "(10::int) ^ length m \<le> 10 ^ 6"
    using u(3) by (intro power_increasing) auto
  ultimately show ?thesis
    using u Dir_f by auto
qed

lemma matches_groups:
  "(g, r) \<in> set (matches items s) \<Longrightarrow> (d, m) \<in> set g \<Longrightarrow>
     (\<forall>c \<in> set m. isdigit c) \<and> 0 \<le> int_of_digits m \<and> int_of_digits m < group_bound d
       \<and> length m \<le> 6"
proof (induction items s arbitrary: g r rule: matches.induct)
  case (1 s)
  then show ?case by simp
next
  case (2 c fs s)
  then show ?case
    by (cases s) (auto split: if_splits)
next
  case (3 x fs s)
  from "3.prems"(1) obtain m' r' g' where
    a: "(m', r') \<in> set (alternatives x s)" and b: "(g', r) \<in> set (matches fs r')"
    and g: "g = (x, m') # g'"
    by auto
  show ?case
  proof (cases "(d, m) = (x, m')")
    case True
    with alternatives_elem [OF a] show ?thesis by simp
  next
    case False
    with g "3.prems"(2) have "(d, m) \<in> set g'" by auto
    from "3.IH" [OF a refl b this] show ?thesis .
  qed
qed

lemma group_int_bounds:
  assumes "(g, r) \<in> set (matches items s)"
  shows "0 \<le> group_int g d \<and> group_int g d < group_bound d"
proof (cases "map_of g d")
  case None
  then show ?thesis by (cases d) (simp_all add: group_int_def)
next
  case (Some m)
  then have "(d, m) \<in> set g" by (rule map_of_SomeD)
  from matches_groups [OF assms this] Some show ?thesis
    by (simp add: group_int_def)
qed

lemma fraction_int_bounds:
  assumes "(g, r) \<in> set (matches items s)"
  shows "0 \<le> fraction_int g \<and> fraction_int g < 1000000"
proof (cases "map_of g Dir_f")
  case None
  then show ?thesis by (simp add: fraction_int_def)
next
  case (Some m)
  then have "(Dir_f, m) \<in> set g" by (rule map_of_SomeD)
  from matches_groups [OF assms this] have d: "\<forall>c \<in> set m. isdigit c" and l: "length m \<le> 6"
    by auto
  have z: "isdigit (CHR ''0'')"
    by (simp add: isdigit_def in_range_def)
  let ?p = "m @ replicate (6 - length m) (CHR ''0'')"
  have "\<forall>c \<in> set ?p. isdigit c"
    using d z by auto
  from int_of_digits_bounds [OF this] l have "0 \<le> int_of_digits ?p \<and> int_of_digits ?p < 10 ^ 6"
    by simp
  with Some show ?thesis
    by (simp add: fraction_int_def)
qed

lemma strptime_Inr:
  assumes "strptime data fmt = Inr t"
  shows "\<exists>items g more. compile_format fmt = Some items \<and> matches items data = (g, []) # more
           \<and> group_int g Dir_S \<le> 59
           \<and> t = \<lparr>ordinal = EPOCH_ORDINAL, hour = group_int g Dir_H,
                   minute = group_int g Dir_M, second = group_int g Dir_S,
                   microsecond = fraction_int g\<rparr>"
  using assms unfolding strptime_def
  by (auto split: option.splits list.splits if_splits)

lemma strptime_valid:
  assumes "strptime data fmt = Inr t"
  shows "valid_time t \<and> ordinal t = EPOCH_ORDINAL"
proof -
  from strptime_Inr [OF assms] obtain items g more where
    m: "matches items data = (g, []) # more" and s: "group_int g Dir_S \<le> 59"
    and t: "t = \<lparr>ordinal = EPOCH_ORDINAL, hour = group_int g Dir_H,
                   minute = group_int g Dir_M, second = group_int g Dir_S,
                   microsecond = fraction_int g\<rparr>"
    by blast
  from m have e: "(g, []) \<in> set (matches items data)" by simp
  from group_int_bounds [OF e, of Dir_H] group_int_bounds [OF e, of Dir_M]
    group_int_bounds [OF e, of Dir_S] fraction_int_bounds [OF e] s t
  show ?thesis
    by (simp add: valid_time_def)
qed


lemma strptime_NotModelled:
  "compile_format fmt = None \<Longrightarrow> strptime data fmt = Inl (NotModelled fmt)"
  by (simp add: strptime_def)

section \<open>Arithmetic on times of day\<close>

lemma time_of_day_bounds:
  "valid_time t \<Longrightarrow> 0 \<le> time_of_day_us t \<and> time_of_day_us t < DAY_US"
  unfolding valid_time_def time_of_day_us_def DAY_US_def by auto

lemma time_of_day_fields:
  assumes "valid_time t"
  shows "time_of_day_us t div 3600000000 = hour t"
    and "time_of_day_us t div 60000000 mod 60 = minute t"
    and "time_of_day_us t div 1000000 mod 60 = second t"
    and "time_of_day_us t mod 1000000 = microsecond t"
proof -
  from assms have b: "0 \<le> hour t" "hour t < 24" "0 \<le> minute t" "minute t < 60"
    "0 \<le> second t" "second t < 60" "0 \<le> microsecond t" "microsecond t < 1000000"
    by (auto simp: valid_time_def)
  let ?tod = "time_of_day_us t"
  have h: "?tod = 3600000000 * hour t
             + (minute t * 60000000 + second t * 1000000 + microsecond t)"
    by (simp add: time_of_day_us_def algebra_simps)
  show "?tod div 3600000000 = hour t"
    by (rule int_div_pos_eq [OF h]) (use b in auto)
  have m: "?tod = 60000000 * (hour t * 60 + minute t)
             + (second t * 1000000 + microsecond t)"
    by (simp add: time_of_day_us_def algebra_simps)
  have "?tod div 60000000 = hour t * 60 + minute t"
    by (rule int_div_pos_eq [OF m]) (use b in auto)
  moreover have "(hour t * 60 + minute t) mod 60 = minute t"
    by (rule int_mod_pos_eq [where q = "hour t"]) (use b in auto)
  ultimately show "?tod div 60000000 mod 60 = minute t"
    by simp
  have s: "?tod = 1000000 * ((hour t * 60 + minute t) * 60 + second t) + microsecond t"
    by (simp add: time_of_day_us_def algebra_simps)
  have "?tod div 1000000 = (hour t * 60 + minute t) * 60 + second t"
    by (rule int_div_pos_eq [OF s]) (use b in auto)
  moreover have "((hour t * 60 + minute t) * 60 + second t) mod 60 = second t"
    by (rule int_mod_pos_eq [where q = "hour t * 60 + minute t"]) (use b in auto)
  ultimately show "?tod div 1000000 mod 60 = second t"
    by simp
  show "?tod mod 1000000 = microsecond t"
    by (rule int_mod_pos_eq [OF s]) (use b in auto)
qed

lemma split_time_of_day:
  fixes tod :: int
  assumes "0 \<le> tod" and "tod < 86400000000"
  shows "0 \<le> tod div 3600000000 \<and> tod div 3600000000 < 24"
    and "0 \<le> tod div 60000000 mod 60 \<and> tod div 60000000 mod 60 < 60"
    and "0 \<le> tod div 1000000 mod 60 \<and> tod div 1000000 mod 60 < 60"
    and "0 \<le> tod mod 1000000 \<and> tod mod 1000000 < 1000000"
    and "((tod div 3600000000 * 60 + tod div 60000000 mod 60) * 60
            + tod div 1000000 mod 60) * 1000000 + tod mod 1000000 = tod"
proof -
  define q where "q = tod div 1000000"
  define n where "n = q div 60"
  have q2: "tod div 60000000 = n"
    unfolding n_def q_def using zdiv_zmult2_eq [of 60 tod 1000000] by simp
  have q3: "tod div 3600000000 = n div 60"
    unfolding q2 [symmetric] using zdiv_zmult2_eq [of 60 tod 60000000] by simp
  have "tod div 3600000000 \<le> 86399999999 div 3600000000"
    by (rule zdiv_mono1) (use assms in simp_all)
  moreover have "0 \<le> tod div 3600000000"
    using assms(1) by (simp add: pos_imp_zdiv_nonneg_iff)
  ultimately show "0 \<le> tod div 3600000000 \<and> tod div 3600000000 < 24"
    by simp
  show "0 \<le> tod div 60000000 mod 60 \<and> tod div 60000000 mod 60 < 60"
    by simp
  show "0 \<le> tod div 1000000 mod 60 \<and> tod div 1000000 mod 60 < 60"
    by simp
  show "0 \<le> tod mod 1000000 \<and> tod mod 1000000 < 1000000"
    by simp
  have a: "n div 60 * 60 + n mod 60 = n"
    by (rule div_mult_mod_eq)
  have b: "n * 60 + q mod 60 = q"
    unfolding n_def by (rule div_mult_mod_eq)
  have c: "q * 1000000 + tod mod 1000000 = tod"
    unfolding q_def by (rule div_mult_mod_eq)
  have "((n div 60 * 60 + n mod 60) * 60 + q mod 60) * 1000000 + tod mod 1000000 = tod"
    by (simp only: a b c)
  then show "((tod div 3600000000 * 60 + tod div 60000000 mod 60) * 60
            + tod div 1000000 mod 60) * 1000000 + tod mod 1000000 = tod"
    by (simp only: q3 q2 q_def [symmetric])
qed

lemma datetime_add_Inr:
  assumes "datetime_add t dl = Inr t'"
  shows "valid_time t' \<and> time_of_day_us t' = (time_of_day_us t + dl) mod DAY_US
           \<and> ordinal t' = ordinal t + (time_of_day_us t + dl) div DAY_US
           \<and> MIN_ORDINAL \<le> ordinal t' \<and> ordinal t' \<le> MAX_ORDINAL"
proof -
  define tod where "tod = (time_of_day_us t + dl) mod DAY_US"
  have r: "0 \<le> tod" "tod < 86400000000"
    unfolding tod_def DAY_US_def by (rule pos_mod_sign, simp) (rule pos_mod_bound, simp)
  from assms have t': "t' = \<lparr>ordinal = ordinal t + (time_of_day_us t + dl) div DAY_US,
      hour = tod div 3600000000, minute = tod div 60000000 mod 60,
      second = tod div 1000000 mod 60, microsecond = tod mod 1000000\<rparr>"
    and o: "MIN_ORDINAL \<le> ordinal t + (time_of_day_us t + dl) div DAY_US"
      "ordinal t + (time_of_day_us t + dl) div DAY_US \<le> MAX_ORDINAL"
    unfolding datetime_add_def tod_def Let_def by (simp_all split: if_splits)
  note s = split_time_of_day [OF r]
  have 1: "valid_time t'"
    unfolding valid_time_def t' datetime.select_convs using s(1-4) by blast
  have "time_of_day_us t' = tod"
    unfolding time_of_day_us_def t' datetime.select_convs by (rule s(5))
  then have 2: "time_of_day_us t' = (time_of_day_us t + dl) mod DAY_US"
    unfolding tod_def .
  have 3: "ordinal t' = ordinal t + (time_of_day_us t + dl) div DAY_US"
    unfolding t' datetime.select_convs by (rule refl)
  have 4: "MIN_ORDINAL \<le> ordinal t'"
    unfolding 3 by (rule o(1))
  have 5: "ordinal t' \<le> MAX_ORDINAL"
    unfolding 3 by (rule o(2))
  from 1 2 3 4 5 show ?thesis by blast
qed

lemma datetime_add_in_range:
  assumes "valid_time t" and "ordinal t = EPOCH_ORDINAL"
    and "- 59926608000000000 \<le> dl" and "dl \<le> 255611203200000000"
  shows "\<exists>t'. datetime_add t dl = Inr t'"
proof -
  from time_of_day_bounds [OF assms(1)] have b: "0 \<le> time_of_day_us t"
    "time_of_day_us t < 86400000000"
    by (simp_all add: DAY_US_def)
  have "(- 59926608000000000) div 86400000000 \<le> (time_of_day_us t + dl) div 86400000000"
    by (rule zdiv_mono1) (use b assms(3) in simp_all)
  then have lo: "- 693595 \<le> (time_of_day_us t + dl) div 86400000000"
    by simp
  have "(time_of_day_us t + dl) div 86400000000 \<le> 255611289599999999 div 86400000000"
    by (rule zdiv_mono1) (use b assms(4) in simp_all)
  then have hi: "(time_of_day_us t + dl) div 86400000000 \<le> 2958463"
    by simp
  from lo hi assms(2) show ?thesis
    by (simp add: datetime_add_def Let_def MIN_ORDINAL_def MAX_ORDINAL_def
        EPOCH_ORDINAL_def DAY_US_def)
qed

lemma timedelta_in_range:
  assumes "- 59926608000000 \<le> ms" and "ms \<le> 255611203200000"
  shows "timedelta ms = Inr (ms * 1000)"
proof -
  have "(- 59926608000000000) div 86400000000 \<le> ms * 1000 div 86400000000"
    by (rule zdiv_mono1) (use assms(1) in simp_all)
  moreover have "ms * 1000 div 86400000000 \<le> 255611203200000000 div 86400000000"
    by (rule zdiv_mono1) (use assms(2) in simp_all)
  ultimately have "- 999999999 \<le> ms * 1000 div 86400000000"
    "ms * 1000 div 86400000000 \<le> 999999999"
    by simp_all
  then show ?thesis
    by (simp add: timedelta_def DAY_US_def)
qed

section \<open>Parsing a range line\<close>

lemma split_not_Nil: "split sep s \<noteq> []"
  by (induction sep s rule: split.induct) (auto split: list.splits)

lemma unpack2_Inr: "unpack2 xs = Inr (a, b) \<Longrightarrow> xs = [Inr a, Inr b]"
  by (induction xs rule: unpack2.induct) auto



lemma parse_range_not_modelled:
  assumes "compile_format fmt = None"
  shows "parse_range line fmt = Inl (NotModelled fmt)"
proof -
  obtain p ps where "split RANGE_MARKER line = p # ps"
    using split_not_Nil by (cases "split RANGE_MARKER line") auto
  then show ?thesis
    by (simp add: parse_range_def strptime_NotModelled [OF assms])
qed

lemma parse_range_ValueError_compiles:
  assumes "parse_range line fmt = Inl e" and "is_ValueError e"
  shows "\<exists>items. compile_format fmt = Some items"
proof (cases "compile_format fmt")
  case None
  from parse_range_not_modelled [OF this, of line] assms show ?thesis by simp
next
  case (Some items)
  then show ?thesis by blast
qed

lemma parse_range_Inr:
  assumes "parse_range line fmt = Inr (t1, t2)"
  shows "\<exists>p1 p2. split RANGE_MARKER line = [p1, p2] \<and> strptime (strip p1) fmt = Inr t1
           \<and> strptime (strip p2) fmt = Inr t2"
proof -
  from assms have "map (\<lambda>x. strptime (strip x) fmt) (split RANGE_MARKER line) = [Inr t1, Inr t2]"
    unfolding parse_range_def by (rule unpack2_Inr)
  then show ?thesis
    by (auto simp: map_eq_Cons_conv)
qed

lemma parse_range_valid:
  assumes "parse_range line fmt = Inr (t1, t2)"
  shows "valid_time t1 \<and> ordinal t1 = EPOCH_ORDINAL \<and> valid_time t2 \<and> ordinal t2 = EPOCH_ORDINAL"
  using parse_range_Inr [OF assms] strptime_valid by blast



lemma strftime_Inr:
  "compile_format fmt = Some items \<Longrightarrow> strftime t fmt = Inr (concat (map (render t) items))"
  by (simp add: strftime_def)





section \<open>Reading what strftime wrote\<close>

lemma in_range_digit_char:
  "0 \<le> n \<Longrightarrow> n < 10 \<Longrightarrow> in_range lo hi (digit_char n) = (lo \<le> 48 + nat n \<and> 48 + nat n \<le> hi)"
  by (simp add: in_range_def digit_char_code)

lemma int_of_digits_two_digits:
  assumes "0 \<le> n" and "n < 100"
  shows "int_of_digits (two_digits n) = n"
proof -
  have "n div 10 mod 10 = n div 10" using assms by simp
  then show ?thesis
    using assms by (simp add: two_digits_def int_of_digits_two digit_char_value)
qed

lemma int_of_digits_six_digits:
  assumes "0 \<le> n" and "n < 1000000"
  shows "int_of_digits (six_digits n) = n"
proof -
  define q1 q2 q3 q4 q5 where "q1 = n div 10" and "q2 = q1 div 10" and "q3 = q2 div 10"
    and "q4 = q3 div 10" and "q5 = q4 div 10"
  have d2: "n div 100 = q2"
    unfolding q2_def q1_def using zdiv_zmult2_eq [of 10 n 10] by simp
  have d3: "n div 1000 = q3"
    unfolding q3_def d2 [symmetric] using zdiv_zmult2_eq [of 10 n 100] by simp
  have d4: "n div 10000 = q4"
    unfolding q4_def d3 [symmetric] using zdiv_zmult2_eq [of 10 n 1000] by simp
  have d5: "n div 100000 = q5"
    unfolding q5_def d4 [symmetric] using zdiv_zmult2_eq [of 10 n 10000] by simp
  have "n div 100000 \<le> 999999 div 100000"
    by (rule zdiv_mono1) (use assms in simp_all)
  moreover have "0 \<le> n div 100000"
    using assms by (simp add: pos_imp_zdiv_nonneg_iff)
  ultimately have s5: "q5 mod 10 = q5"
    unfolding d5 by simp
  have e: "int_of_digits (six_digits n) =
      10 * (10 * (10 * (10 * (10 * (q5 mod 10) + q4 mod 10) + q3 mod 10) + q2 mod 10)
        + q1 mod 10) + n mod 10"
    unfolding six_digits_def d2 d3 d4 d5 q1_def [symmetric]
    by (simp add: int_of_digits_def digit_char_value)
  have r: "10 * q5 + q4 mod 10 = q4" "10 * q4 + q3 mod 10 = q3" "10 * q3 + q2 mod 10 = q2"
    "10 * q2 + q1 mod 10 = q1" "10 * q1 + n mod 10 = n"
    unfolding q5_def q4_def q3_def q2_def q1_def by simp_all
  show ?thesis
    unfolding e s5 by (simp only: r)
qed

lemma two_digits_isdigit: "c \<in> set (two_digits n) \<Longrightarrow> isdigit c"
  by (auto simp: two_digits_def digit_char_isdigit)

lemma six_digits_isdigit: "c \<in> set (six_digits n) \<Longrightarrow> isdigit c"
  by (auto simp: six_digits_def digit_char_isdigit)

lemma in_range_digit_char_int:
  assumes "0 \<le> n" and "n < 10"
  shows "in_range lo hi (digit_char n) = (int lo \<le> 48 + n \<and> 48 + n \<le> int hi)"
proof -
  have "(of_char (digit_char n) :: nat) = nat (48 + n)"
    using assms by (simp add: digit_char_code nat_add_distrib)
  then show ?thesis
    using assms by (simp add: in_range_def nat_le_iff le_nat_iff)
qed

lemma two_chars_digits:
  assumes "0 \<le> a" and "a < 10" and "0 \<le> b" and "b < 10"
  shows "two_chars (in_range l1 h1) (in_range l2 h2) (digit_char a # digit_char b # r) =
     (if int l1 \<le> 48 + a \<and> 48 + a \<le> int h1 \<and> int l2 \<le> 48 + b \<and> 48 + b \<le> int h2
      then [([digit_char a, digit_char b], r)] else [])"
  by (simp add: in_range_digit_char_int [OF assms(1,2)] in_range_digit_char_int [OF assms(3,4)])

lemma alternatives_two_digits_H:
  assumes "0 \<le> h" and "h < 24"
  shows "\<exists>rest. alternatives Dir_H (two_digits h @ r) = (two_digits h, r) # rest"
proof -
  define a b where "a = h div 10 mod 10" and "b = h mod 10"
  have i: "0 \<le> a" "a < 10" "0 \<le> b" "b < 10"
    by (simp_all add: a_def b_def)
  define q where "q = h div 10"
  have "q \<le> 23 div 10"
    unfolding q_def by (rule zdiv_mono1) (use assms in simp_all)
  moreover have "0 \<le> q"
    unfolding q_def using assms by (simp add: pos_imp_zdiv_nonneg_iff)
  ultimately have qa: "a = q" "q \<le> 2"
    unfolding a_def q_def [symmetric] by simp_all
  have "h = 10 * q + b"
    unfolding q_def b_def by simp
  with assms qa have c: "a \<le> 2" "a = 2 \<longrightarrow> b \<le> 3"
    by simp_all
  have t: "two_digits h = [digit_char a, digit_char b]"
    by (simp add: two_digits_def a_def b_def)
  have ra: "in_range lo hi (digit_char a) = (int lo \<le> 48 + a \<and> 48 + a \<le> int hi)" for lo hi
    using i(1,2) by (rule in_range_digit_char_int)
  have rb: "in_range lo hi (digit_char b) = (int lo \<le> 48 + b \<and> 48 + b \<le> int hi)" for lo hi
    using i(3,4) by (rule in_range_digit_char_int)
  show ?thesis
  proof (cases "a = 2")
    case True
    have r2: "in_range lo hi (digit_char 2) = (int lo \<le> 48 + 2 \<and> 48 + 2 \<le> int hi)" for lo hi
      by (rule in_range_digit_char_int) simp_all
    from True c i show ?thesis
      unfolding t by (simp add: isdigit_def r2 rb)
  next
    case False
    with c i show ?thesis
      unfolding t by (simp add: isdigit_def ra rb)
  qed
qed

lemma alternatives_two_digits_M:
  assumes "0 \<le> m" and "m < 60"
  shows "\<exists>rest. alternatives Dir_M (two_digits m @ r) = (two_digits m, r) # rest"
proof -
  define a b where "a = m div 10 mod 10" and "b = m mod 10"
  have i: "0 \<le> a" "a < 10" "0 \<le> b" "b < 10"
    by (simp_all add: a_def b_def)
  define q where "q = m div 10"
  have "q \<le> 59 div 10"
    unfolding q_def by (rule zdiv_mono1) (use assms in simp_all)
  moreover have "0 \<le> q"
    unfolding q_def using assms by (simp add: pos_imp_zdiv_nonneg_iff)
  ultimately have c: "a \<le> 5"
    unfolding a_def q_def [symmetric] by simp
  have t: "two_digits m = [digit_char a, digit_char b]"
    by (simp add: two_digits_def a_def b_def)
  have ra: "in_range lo hi (digit_char a) = (int lo \<le> 48 + a \<and> 48 + a \<le> int hi)" for lo hi
    using i(1,2) by (rule in_range_digit_char_int)
  have rb: "in_range lo hi (digit_char b) = (int lo \<le> 48 + b \<and> 48 + b \<le> int hi)" for lo hi
    using i(3,4) by (rule in_range_digit_char_int)
  from c i show ?thesis
    unfolding t by (simp add: isdigit_def ra rb)
qed

lemma alternatives_two_digits_S:
  assumes "0 \<le> s" and "s < 60"
  shows "\<exists>rest. alternatives Dir_S (two_digits s @ r) = (two_digits s, r) # rest"
proof -
  define a b where "a = s div 10 mod 10" and "b = s mod 10"
  have i: "0 \<le> a" "a < 10" "0 \<le> b" "b < 10"
    by (simp_all add: a_def b_def)
  define q where "q = s div 10"
  have "q \<le> 59 div 10"
    unfolding q_def by (rule zdiv_mono1) (use assms in simp_all)
  moreover have "0 \<le> q"
    unfolding q_def using assms by (simp add: pos_imp_zdiv_nonneg_iff)
  ultimately have c: "a \<le> 5"
    unfolding a_def q_def [symmetric] by simp
  have t: "two_digits s = [digit_char a, digit_char b]"
    by (simp add: two_digits_def a_def b_def)
  have ra: "in_range lo hi (digit_char a) = (int lo \<le> 48 + a \<and> 48 + a \<le> int hi)" for lo hi
    using i(1,2) by (rule in_range_digit_char_int)
  have rb: "in_range lo hi (digit_char b) = (int lo \<le> 48 + b \<and> 48 + b \<le> int hi)" for lo hi
    using i(3,4) by (rule in_range_digit_char_int)
  from c i show ?thesis
    unfolding t by (simp add: isdigit_def ra rb)
qed

lemma alternatives_six_digits:
  "\<exists>rest. alternatives Dir_f (six_digits u @ r) = (six_digits u, r) # rest"
proof -
  have l: "length (six_digits u) = 6"
    by (simp add: six_digits_def)
  have "takeWhile isdigit (six_digits u @ r) = six_digits u @ takeWhile isdigit r"
    by (rule takeWhile_append2) (rule six_digits_isdigit)
  then have "min 6 (length (takeWhile isdigit (six_digits u @ r))) = 6"
    using l by simp
  then have "up_to_six (six_digits u @ r) =
      map (\<lambda>k. (take k (six_digits u @ r), drop k (six_digits u @ r))) (rev [1 ..< Suc 6])"
    by (simp only: up_to_six_def)
  also have "rev [1 ..< Suc 6] = 6 # rev [1 ..< 6]"
    by (simp only: upt_Suc_append [of 1 6] rev_append rev.simps append.simps)
  finally show ?thesis
    using l by simp
qed

lemma alternatives_render:
  assumes "valid_time t"
  shows "\<exists>rest. alternatives d (render t (Directive d) @ r) = (render t (Directive d), r) # rest"
proof (cases d)
  case Dir_H
  with assms alternatives_two_digits_H [of "hour t" r] show ?thesis
    by (simp add: valid_time_def)
next
  case Dir_M
  with assms alternatives_two_digits_M [of "minute t" r] show ?thesis
    by (simp add: valid_time_def)
next
  case Dir_S
  with assms alternatives_two_digits_S [of "second t" r] show ?thesis
    by (simp add: valid_time_def)
next
  case Dir_f
  with alternatives_six_digits [of "microsecond t" r] show ?thesis
    by simp
qed

text \<open>On a text that strftime wrote, the first match takes each group as it was written.\<close>

lemma matches_render:
  assumes "valid_time t"
  shows "\<exists>more. matches items (concat (map (render t) items) @ r) =
           (map (\<lambda>d. (d, render t (Directive d))) (directives items), r) # more"
proof (induction items)
  case Nil
  show ?case by simp
next
  case (Cons item items)
  then obtain more where ih: "matches items (concat (map (render t) items) @ r) =
           (map (\<lambda>d. (d, render t (Directive d))) (directives items), r) # more"
    by blast
  show ?case
  proof (cases item)
    case (Literal c)
    with ih show ?thesis by simp
  next
    case (Directive d)
    from alternatives_render [OF assms, of d "concat (map (render t) items) @ r"]
    obtain rest where "alternatives d (render t (Directive d) @ concat (map (render t) items) @ r)
        = (render t (Directive d), concat (map (render t) items) @ r) # rest"
      by blast
    with ih Directive show ?thesis by simp
  qed
qed

lemma group_int_render:
  "group_int (map (\<lambda>d. (d, render t (Directive d))) ds) d =
     (if d \<in> set ds then int_of_digits (render t (Directive d)) else 0)"
  by (simp add: group_int_def map_of_map_restrict restrict_map_def)

lemma fraction_int_render:
  "fraction_int (map (\<lambda>d. (d, render t (Directive d))) ds) =
     (if Dir_f \<in> set ds then int_of_digits (six_digits (microsecond t)) else 0)"
  by (simp add: fraction_int_def map_of_map_restrict restrict_map_def six_digits_def)

text \<open>Parsing what strftime wrote gives back each field that the format shows.\<close>

lemma strptime_strftime:
  assumes "compile_format fmt = Some items" and "valid_time t"
  shows "strptime (concat (map (render t) items)) fmt =
     Inr \<lparr>ordinal = EPOCH_ORDINAL,
          hour = (if Dir_H \<in> set (directives items) then hour t else 0),
          minute = (if Dir_M \<in> set (directives items) then minute t else 0),
          second = (if Dir_S \<in> set (directives items) then second t else 0),
          microsecond = (if Dir_f \<in> set (directives items) then microsecond t else 0)\<rparr>"
proof -
  from matches_render [OF assms(2), of items "[]"] obtain more where
    m: "matches items (concat (map (render t) items)) =
           (map (\<lambda>d. (d, render t (Directive d))) (directives items), []) # more"
    by auto
  from assms(2) have v: "0 \<le> hour t" "hour t < 100" "0 \<le> minute t" "minute t < 100"
    "0 \<le> second t" "second t < 60" "0 \<le> microsecond t" "microsecond t < 1000000"
    by (auto simp: valid_time_def)
  show ?thesis
    unfolding strptime_def using assms(1) m v
    by (simp add: group_int_render fraction_int_render int_of_digits_two_digits
        int_of_digits_six_digits)
qed

section \<open>Whitespace and the marker\<close>

lemma format_items_literals:
  "format_items fmt = Some items \<Longrightarrow> Literal c \<in> set items \<Longrightarrow> plain_literal c"
proof (induction fmt arbitrary: items rule: format_items.induct)
  case 1
  then show ?case by simp
next
  case (2 x)
  then show ?case by (auto split: if_splits)
next
  case (3 x y cs)
  then show ?case
    by (auto split: if_splits option.splits)
qed

lemma compile_format_items:
  "compile_format fmt = Some items \<Longrightarrow> format_items fmt = Some items"
  by (auto simp: compile_format_def split: option.splits if_splits)

lemma render_isdigit: "c \<in> set (render t (Directive d)) \<Longrightarrow> isdigit c"
  by (cases d) (auto dest: two_digits_isdigit six_digits_isdigit)

lemma rendered_chars:
  assumes "format_items fmt = Some items" and "c \<in> set (concat (map (render t) items))"
  shows "isdigit c \<or> plain_literal c"
proof -
  from assms(2) obtain item where i: "item \<in> set items" "c \<in> set (render t item)"
    by auto
  show ?thesis
  proof (cases item)
    case (Directive d)
    with i render_isdigit show ?thesis by blast
  next
    case (Literal x)
    with i format_items_literals [OF assms(1)] show ?thesis by auto
  qed
qed

lemma not_isspace: "isdigit c \<or> plain_literal c \<Longrightarrow> \<not> isspace c"
  by (auto simp: isdigit_def plain_literal_def in_range_def isspace_def)

lemma isspace_blank: "isspace (CHR '' '')" and isspace_newline: "isspace newline"
  by (simp_all add: isspace_def newline_def)

lemma strip_padded:
  assumes "\<forall>c \<in> set a. isspace c" and "\<forall>c \<in> set b. isspace c"
    and "\<forall>c \<in> set s. \<not> isspace c"
  shows "strip (a @ s @ b) = s"
proof -
  have 1: "dropWhile isspace (a @ s @ b) = dropWhile isspace (s @ b)"
    by (rule dropWhile_append2) (use assms(1) in simp)
  show ?thesis
  proof (cases s)
    case Nil
    have d: "dropWhile isspace (a @ b) = []"
      by (simp only: dropWhile_eq_Nil_conv set_append) (use assms(1,2) in blast)
    have "strip (a @ b) = []"
      by (simp only: strip_def d rev.simps dropWhile.simps)
    with Nil show ?thesis
      by simp
  next
    case (Cons x xs)
    with assms(3) have x: "\<not> isspace x" by simp
    with Cons have 2: "dropWhile isspace (s @ b) = s @ b"
      by simp
    have "dropWhile isspace (rev b @ rev s) = dropWhile isspace (rev s)"
      by (rule dropWhile_append2) (use assms(2) in simp)
    then have "dropWhile isspace (rev (s @ b)) = dropWhile isspace (rev s)"
      by simp
    also have "\<dots> = rev s"
    proof (cases "rev s")
      case Nil
      then show ?thesis by simp
    next
      case (Cons y ys)
      then have "y \<in> set s"
        by (metis list.set_intros(1) set_rev)
      with assms(3) Cons show ?thesis by simp
    qed
    finally show ?thesis
      by (simp add: strip_def 1 2)
  qed
qed

lemma marker_prefix:
  "prefix RANGE_MARKER s = (\<exists>r. s = CHR ''-'' # CHR ''-'' # CHR ''>'' # r)"
  by (auto simp: RANGE_MARKER_def prefix_def)

lemma contains_Cons:
  "contains RANGE_MARKER (c # s) = (prefix RANGE_MARKER (c # s) \<or> contains RANGE_MARKER s)"
  by simp

lemma contains_Nil: "\<not> contains RANGE_MARKER []"
  by (simp add: RANGE_MARKER_def)

lemma contains_append_left: "contains RANGE_MARKER s \<Longrightarrow> contains RANGE_MARKER (r @ s)"
  by (induction r) simp_all

text \<open>A text without the marker followed by a space: the marker cannot begin in it.\<close>

lemma no_marker_before_blank:
  assumes "\<not> contains RANGE_MARKER s"
  shows "\<not> prefix RANGE_MARKER (s @ CHR '' '' # r)"
proof (cases s)
  case Nil
  then show ?thesis by (simp add: marker_prefix)
next
  case s1: (Cons a s')
  show ?thesis
  proof (cases s')
    case Nil
    with s1 show ?thesis by (simp add: marker_prefix)
  next
    case s2: (Cons b s'')
    show ?thesis
    proof (cases s'')
      case Nil
      with s1 s2 show ?thesis by (simp add: marker_prefix)
    next
      case (Cons c s''')
      with s1 s2 assms show ?thesis by (auto simp: marker_prefix)
    qed
  qed
qed

lemma split_Cons_no_prefix:
  "\<not> prefix RANGE_MARKER (c # s) \<Longrightarrow>
     split RANGE_MARKER (c # s) = (c # hd (split RANGE_MARKER s)) # tl (split RANGE_MARKER s)"
  using split_not_Nil [of RANGE_MARKER s]
  by (cases "split RANGE_MARKER s") simp_all

lemma split_marker:
  "split RANGE_MARKER (CHR ''-'' # CHR ''-'' # CHR ''>'' # r) = [] # split RANGE_MARKER r"
  by (simp add: RANGE_MARKER_def)

lemma split_no_marker:
  "\<not> contains RANGE_MARKER s \<Longrightarrow> split RANGE_MARKER s = [s]"
proof (induction s)
  case Nil
  show ?case by simp
next
  case (Cons c s)
  then show ?case
    by (simp add: split_Cons_no_prefix)
qed

lemma split_before_blank:
  assumes "\<not> contains RANGE_MARKER s"
  shows "split RANGE_MARKER (s @ CHR '' '' # r) =
     (s @ hd (split RANGE_MARKER (CHR '' '' # r))) # tl (split RANGE_MARKER (CHR '' '' # r))"
  using assms
proof (induction s)
  case Nil
  show ?case
    using split_not_Nil [of RANGE_MARKER "CHR '' '' # r"]
    by (cases "split RANGE_MARKER (CHR '' '' # r)") simp_all
next
  case (Cons c s)
  then have n: "\<not> contains RANGE_MARKER s"
    by simp
  have "\<not> prefix RANGE_MARKER ((c # s) @ CHR '' '' # r)"
    using Cons.prems by (rule no_marker_before_blank)
  then have "split RANGE_MARKER (c # s @ CHR '' '' # r) =
      (c # hd (split RANGE_MARKER (s @ CHR '' '' # r))) # tl (split RANGE_MARKER (s @ CHR '' '' # r))"
    using split_Cons_no_prefix by simp
  with Cons.IH [OF n] show ?case by simp
qed

lemma no_marker_blank_newline:
  assumes "\<not> contains RANGE_MARKER s"
  shows "\<not> contains RANGE_MARKER (CHR '' '' # s @ [newline])"
proof -
  have "\<not> contains RANGE_MARKER (s @ [newline])"
    using assms
  proof (induction s)
    case Nil
    show ?case by (simp add: RANGE_MARKER_def)
  next
    case (Cons c s)
    then have "\<not> contains RANGE_MARKER (s @ [newline])" by simp
    moreover have "\<not> prefix RANGE_MARKER (c # s @ [newline])"
    proof
      assume "prefix RANGE_MARKER (c # s @ [newline])"
      then obtain r where r: "c # s @ [newline] = CHR ''-'' # CHR ''-'' # CHR ''>'' # r"
        by (auto simp: marker_prefix)
      then have "\<exists>r'. c # s = CHR ''-'' # CHR ''-'' # CHR ''>'' # r'"
        by (cases s; cases "tl s"; cases "tl (tl s)") (auto simp: newline_def)
      then have "prefix RANGE_MARKER (c # s)"
        by (simp add: marker_prefix)
      with Cons.prems show False by simp
    qed
    ultimately show ?case by simp
  qed
  then show ?thesis
    by (simp add: marker_prefix)
qed

text \<open>The line that \<open>increment_line\<close> writes splits into its two timestamps again.\<close>

lemma split_joined:
  assumes "\<not> contains RANGE_MARKER s1" and "\<not> contains RANGE_MARKER s2"
  shows "split RANGE_MARKER (s1 @ '' --> '' @ s2 @ [newline]) =
     [s1 @ '' '', CHR '' '' # s2 @ [newline]]"
proof -
  let ?r = "CHR ''-'' # CHR ''-'' # CHR ''>'' # CHR '' '' # s2 @ [newline]"
  have t: "split RANGE_MARKER (CHR '' '' # s2 @ [newline]) = [CHR '' '' # s2 @ [newline]]"
    using no_marker_blank_newline [OF assms(2)] by (rule split_no_marker)
  have "split RANGE_MARKER (CHR '' '' # ?r) =
      (CHR '' '' # hd (split RANGE_MARKER ?r)) # tl (split RANGE_MARKER ?r)"
    by (rule split_Cons_no_prefix) (simp add: marker_prefix)
  also have "split RANGE_MARKER ?r = [] # split RANGE_MARKER (CHR '' '' # s2 @ [newline])"
    by (rule split_marker)
  finally have b: "split RANGE_MARKER (CHR '' '' # ?r) = ['' '', CHR '' '' # s2 @ [newline]]"
    using t by simp
  have "split RANGE_MARKER (s1 @ CHR '' '' # ?r) =
      (s1 @ hd (split RANGE_MARKER (CHR '' '' # ?r))) # tl (split RANGE_MARKER (CHR '' '' # ?r))"
    using assms(1) by (rule split_before_blank)
  with b show ?thesis by simp
qed

lemma isdigit_not_marker: "isdigit c \<Longrightarrow> c \<noteq> CHR ''-'' \<and> c \<noteq> CHR ''>''"
  by (auto simp: isdigit_def in_range_def)

lemma contains_skip_digits:
  "\<forall>c \<in> set ds. isdigit c \<Longrightarrow> contains RANGE_MARKER (ds @ s) = contains RANGE_MARKER s"
  by (induction ds) (auto simp: marker_prefix dest: isdigit_not_marker)

lemma render_directive_Cons:
  "\<exists>y ys. render t (Directive d) = y # ys \<and> isdigit y"
  by (cases d) (simp_all add: two_digits_def six_digits_def digit_char_isdigit)

text \<open>
  A run of characters that are not digits at the front of a written timestamp stands at
  the front of the format too.
\<close>

lemma rendered_prefix:
  "format_items fmt = Some items \<Longrightarrow> \<forall>c \<in> set p. \<not> isdigit c \<Longrightarrow>
     prefix p (concat (map (render t) items)) \<Longrightarrow> prefix p fmt"
proof (induction fmt arbitrary: items p rule: format_items.induct)
  case 1
  then show ?case by simp
next
  case (2 x)
  then show ?case
    by (cases p) (auto split: if_splits)
next
  case (3 x y cs)
  show ?case
  proof (cases p)
    case Nil
    then show ?thesis by simp
  next
    case (Cons a p')
    show ?thesis
    proof (cases "x = CHR ''%''")
      case True
      with "3.prems"(1) obtain d items' where "items = Directive d # items'"
        by (auto split: option.splits)
      moreover obtain z zs where "render t (Directive d) = z # zs" "isdigit z"
        using render_directive_Cons by blast
      ultimately have "a = z" "isdigit z"
        using "3.prems"(3) Cons by auto
      with "3.prems"(2) Cons show ?thesis by simp
    next
      case False
      with "3.prems"(1) obtain items' where i: "plain_literal x" "items = Literal x # items'"
        "format_items (y # cs) = Some items'"
        by (auto split: if_splits)
      with "3.prems"(3) Cons have a: "a = x" "prefix p' (concat (map (render t) items'))"
        by auto
      from "3.prems"(2) Cons have "\<forall>c \<in> set p'. \<not> isdigit c" by simp
      from "3.IH"(2) [OF False i(1) i(3) this a(2)] a(1) Cons show ?thesis
        by simp
    qed
  qed
qed

lemma marker_not_digits: "\<forall>c \<in> set RANGE_MARKER. \<not> isdigit c"
  by (simp add: RANGE_MARKER_def isdigit_def in_range_def)

text \<open>If the format has no marker in it, no timestamp written with it has one.\<close>

lemma rendered_no_marker:
  "format_items fmt = Some items \<Longrightarrow> contains RANGE_MARKER (concat (map (render t) items)) \<Longrightarrow>
     contains RANGE_MARKER fmt"
proof (induction fmt arbitrary: items rule: format_items.induct)
  case 1
  then show ?case by simp
next
  case (2 x)
  then show ?case
    by (auto simp: marker_prefix RANGE_MARKER_def split: if_splits)
next
  case (3 x y cs)
  show ?case
  proof (cases "x = CHR ''%''")
    case True
    with "3.prems"(1) obtain d items' where i: "directive_of y = Some d"
      "items = Directive d # items'" "format_items cs = Some items'"
      by (auto split: option.splits)
    have "\<forall>c \<in> set (render t (Directive d)). isdigit c"
      using render_isdigit by blast
    with "3.prems"(2) i(2) have "contains RANGE_MARKER (concat (map (render t) items'))"
      by (simp add: contains_skip_digits)
    from "3.IH"(1) [OF True i(1) i(3) this] show ?thesis
      by simp
  next
    case False
    with "3.prems"(1) obtain items' where i: "plain_literal x" "items = Literal x # items'"
      "format_items (y # cs) = Some items'"
      by (auto split: if_splits)
    from "3.prems"(2) i(2) consider
      (front) "prefix RANGE_MARKER (x # concat (map (render t) items'))"
      | (later) "contains RANGE_MARKER (concat (map (render t) items'))"
      by auto
    then show ?thesis
    proof cases
      case front
      have "format_items (x # y # cs) = Some items"
        by (rule "3.prems"(1))
      from rendered_prefix [OF this marker_not_digits] front i(2)
      have "prefix RANGE_MARKER (x # y # cs)"
        by simp
      then show ?thesis by simp
    next
      case later
      from "3.IH"(2) [OF False i(1) i(3) this] show ?thesis
        by simp
    qed
  qed
qed

lemma strftime_no_marker:
  assumes "compile_format fmt = Some items" and "\<not> contains RANGE_MARKER fmt"
  shows "\<not> contains RANGE_MARKER (concat (map (render t) items))"
  using rendered_no_marker [OF compile_format_items [OF assms(1)]] assms(2) by blast

lemma strip_rendered:
  assumes "compile_format fmt = Some items"
  shows "strip (concat (map (render t) items) @ '' '') = concat (map (render t) items)"
    and "strip (CHR '' '' # concat (map (render t) items) @ [newline])
           = concat (map (render t) items)"
proof -
  let ?s = "concat (map (render t) items)"
  have n: "\<forall>c \<in> set ?s. \<not> isspace c"
    using rendered_chars [OF compile_format_items [OF assms]] not_isspace by blast
  have "strip ([] @ ?s @ '' '') = ?s"
    by (rule strip_padded) (use n isspace_blank in simp_all)
  then show "strip (?s @ '' '') = ?s" by simp
  have "strip ('' '' @ ?s @ [newline]) = ?s"
    by (rule strip_padded) (use n isspace_blank isspace_newline in simp_all)
  then show "strip (CHR '' '' # ?s @ [newline]) = ?s" by simp
qed

text \<open>Reading a written line again: each timestamp comes back as the format shows it.\<close>

lemma parse_range_written:
  assumes "compile_format fmt = Some items" and "\<not> contains RANGE_MARKER fmt"
    and "valid_time t1" and "valid_time t2"
  shows "parse_range (concat (map (render t1) items) @ '' --> ''
                        @ concat (map (render t2) items) @ [newline]) fmt
           = Inr (shown items t1, shown items t2)"
proof -
  let ?s1 = "concat (map (render t1) items)" and ?s2 = "concat (map (render t2) items)"
  have "split RANGE_MARKER (?s1 @ '' --> '' @ ?s2 @ [newline]) =
      [?s1 @ '' '', CHR '' '' # ?s2 @ [newline]]"
    by (rule split_joined) (rule strftime_no_marker [OF assms(1,2)])+
  moreover have "strptime ?s1 fmt = Inr (shown items t1)"
    unfolding shown_def by (rule strptime_strftime [OF assms(1,3)])
  moreover have "strptime ?s2 fmt = Inr (shown items t2)"
    unfolding shown_def by (rule strptime_strftime [OF assms(1,4)])
  ultimately show ?thesis
    by (simp add: parse_range_def strip_rendered [OF assms(1)])
qed

section \<open>Shifting a line\<close>

lemma add_no_wrap:
  assumes "valid_time t" and "ordinal t = EPOCH_ORDINAL"
    and "0 \<le> time_of_day_us t + dl" and "time_of_day_us t + dl < DAY_US"
  shows "\<exists>t'. datetime_add t dl = Inr t' \<and> valid_time t'
           \<and> time_of_day_us t' = time_of_day_us t + dl"
proof -
  from time_of_day_bounds [OF assms(1)] assms(3,4)
  have "- 59926608000000000 \<le> dl" "dl \<le> 255611203200000000"
    by (simp_all add: DAY_US_def)
  from datetime_add_in_range [OF assms(1,2) this] obtain t' where a: "datetime_add t dl = Inr t'"
    by blast
  have "(time_of_day_us t + dl) mod DAY_US = time_of_day_us t + dl"
    using assms(3,4) by (rule mod_pos_pos_trivial)
  with datetime_add_Inr [OF a] a show ?thesis
    by simp
qed

lemma add_zero:
  assumes "valid_time t" and "ordinal t = EPOCH_ORDINAL"
  shows "\<exists>t'. datetime_add t 0 = Inr t' \<and> valid_time t' \<and> time_of_day_us t' = time_of_day_us t"
  using add_no_wrap [OF assms, of 0] time_of_day_bounds [OF assms(1)] by simp

lemma render_same_time:
  assumes "valid_time a" and "valid_time b" and "time_of_day_us a = time_of_day_us b"
  shows "render a item = render b item"
proof -
  from time_of_day_fields [OF assms(1)] time_of_day_fields [OF assms(2)] assms(3)
  have "hour a = hour b" "minute a = minute b" "second a = second b"
    "microsecond a = microsecond b"
    by simp_all
  show ?thesis
  proof (cases item)
    case (Directive d)
    with \<open>hour a = hour b\<close> \<open>minute a = minute b\<close> \<open>second a = second b\<close>
      \<open>microsecond a = microsecond b\<close>
    show ?thesis by (cases d) simp_all
  next
    case (Literal c)
    then show ?thesis by simp
  qed
qed

lemma shown_valid: "valid_time t \<Longrightarrow> valid_time (shown items t)"
  by (simp add: valid_time_def shown_def)

lemma shown_ordinal: "ordinal (shown items t) = EPOCH_ORDINAL"
  by (simp add: shown_def)

lemma shown_all:
  assumes "set (directives items) = {Dir_H, Dir_M, Dir_S, Dir_f}"
  shows "time_of_day_us (shown items t) = time_of_day_us t"
  using assms by (simp add: shown_def time_of_day_us_def)

lemma no_wrap_range:
  assumes "valid_time t" and "0 \<le> time_of_day_us t + d * 1000"
    and "time_of_day_us t + d * 1000 < DAY_US"
  shows "- 59926608000000 \<le> d \<and> d \<le> 255611203200000
           \<and> - 59926608000000 \<le> - d \<and> - d \<le> 255611203200000"
  using time_of_day_bounds [OF assms(1)] assms(2,3) by (simp add: DAY_US_def)

lemma shifted_no_wrap:
  assumes "compile_format fmt = Some items" and "valid_time t" and "ordinal t = EPOCH_ORDINAL"
    and "0 \<le> time_of_day_us t + dl" and "time_of_day_us t + dl < DAY_US"
  shows "\<exists>t'. shifted t dl fmt = Inr (concat (map (render t') items)) \<and> valid_time t'
           \<and> time_of_day_us t' = time_of_day_us t + dl"
proof -
  from add_no_wrap [OF assms(2-5)] obtain t' where "datetime_add t dl = Inr t'" "valid_time t'"
    "time_of_day_us t' = time_of_day_us t + dl"
    by blast
  then show ?thesis
    by (auto simp: shifted_def strftime_Inr [OF assms(1)])
qed

text \<open>
  Shifting a line forth without a wrap: the line that comes out, and the times of day
  written in it.
\<close>

lemma increment_line_no_wrap:
  assumes "compile_format fmt = Some items" and "parse_range line fmt = Inr (t1, t2)"
    and "valid_time t1" and "ordinal t1 = EPOCH_ORDINAL"
    and "valid_time t2" and "ordinal t2 = EPOCH_ORDINAL"
    and "0 \<le> time_of_day_us t1 + d * 1000" and "time_of_day_us t1 + d * 1000 < DAY_US"
    and "0 \<le> time_of_day_us t2 + d * 1000" and "time_of_day_us t2 + d * 1000 < DAY_US"
  shows "\<exists>u1 u2. increment_line line d fmt =
             Inr (concat (map (render u1) items) @ '' --> ''
                    @ concat (map (render u2) items) @ [newline])
           \<and> valid_time u1 \<and> time_of_day_us u1 = time_of_day_us t1 + d * 1000
           \<and> valid_time u2 \<and> time_of_day_us u2 = time_of_day_us t2 + d * 1000"
proof -
  from no_wrap_range [OF assms(3,7,8)] have "timedelta d = Inr (d * 1000)"
    by (simp add: timedelta_in_range)
  moreover from shifted_no_wrap [OF assms(1,3,4,7,8)] obtain u1 where
    "shifted t1 (d * 1000) fmt = Inr (concat (map (render u1) items))" "valid_time u1"
    "time_of_day_us u1 = time_of_day_us t1 + d * 1000"
    by blast
  moreover from shifted_no_wrap [OF assms(1,5,6,9,10)] obtain u2 where
    "shifted t2 (d * 1000) fmt = Inr (concat (map (render u2) items))" "valid_time u2"
    "time_of_day_us u2 = time_of_day_us t2 + d * 1000"
    by blast
  ultimately show ?thesis
    using assms(2) by (auto simp: increment_line_def)
qed

section \<open>Round trip, wrap and parse failure\<close>

lemma default_compiles: "compile_format DEFAULT_FORMAT = Some default_items"
  by code_simp

lemma default_shows_all: "set (directives default_items) = {Dir_H, Dir_M, Dir_S, Dir_f}"
  by (auto simp: default_items_def)

lemma default_no_marker: "\<not> contains RANGE_MARKER DEFAULT_FORMAT"
  by code_simp

lemma datetime_add_cases:
  "datetime_add t (ms * 1000) =
     (if date_in_range (day_of_sum t ms)
      then Inr \<lparr>ordinal = day_of_sum t ms,
                hour = (time_of_day_us t + ms * 1000) mod DAY_US div 3600000000,
                minute = (time_of_day_us t + ms * 1000) mod DAY_US div 60000000 mod 60,
                second = (time_of_day_us t + ms * 1000) mod DAY_US div 1000000 mod 60,
                microsecond = (time_of_day_us t + ms * 1000) mod DAY_US mod 1000000\<rparr>
      else Inl (OverflowError DateOutOfRange))"
  unfolding datetime_add_def day_of_sum_def date_in_range_def Let_def
  by (simp only: not_le not_less de_Morgan_conj if_not_P split: if_splits) auto

lemma timedelta_cases:
  "timedelta ms = Inr (ms * 1000) \<or> timedelta ms = Inl (OverflowError DaysTooLarge)"
  by (simp add: timedelta_def)

lemma date_in_range_timedelta:
  assumes "valid_time t" and "ordinal t = EPOCH_ORDINAL" and "date_in_range (day_of_sum t ms)"
  shows "timedelta ms = Inr (ms * 1000)"
proof -
  define x where "x = ms * 1000"
  from time_of_day_bounds [OF assms(1)] have b: "0 \<le> time_of_day_us t"
    "time_of_day_us t < 86400000000"
    by (simp_all add: DAY_US_def)
  from assms(2,3) have r: "- 693595 \<le> (time_of_day_us t + x) div 86400000000"
    "(time_of_day_us t + x) div 86400000000 \<le> 2958463"
    by (simp_all add: date_in_range_def day_of_sum_def x_def MIN_ORDINAL_def MAX_ORDINAL_def
        EPOCH_ORDINAL_def DAY_US_def)
  have "x div 86400000000 \<le> (time_of_day_us t + x) div 86400000000"
    by (rule zdiv_mono1) (use b in simp_all)
  with r(2) have hi: "x div 86400000000 \<le> 2958463"
    by simp
  have "(time_of_day_us t + x + (- 1) * 86400000000) div 86400000000
          = - 1 + (time_of_day_us t + x) div 86400000000"
    by (rule div_mult_self1) simp
  moreover have "(time_of_day_us t + x + (- 1) * 86400000000) div 86400000000
          \<le> x div 86400000000"
    by (rule zdiv_mono1) (use b in simp_all)
  ultimately have lo: "- 693596 \<le> x div 86400000000"
    using r(1) by simp
  from lo hi show ?thesis
    by (simp add: timedelta_def DAY_US_def x_def)
qed

lemma safe_offsets:
  assumes "valid_time t" and "ordinal t = EPOCH_ORDINAL"
    and "- 59926608000000 \<le> ms" and "ms \<le> 255611203200000"
  shows "date_in_range (day_of_sum t ms)"
proof -
  have "- 59926608000000000 \<le> ms * 1000" "ms * 1000 \<le> 255611203200000000"
    using assms(3,4) by simp_all
  from datetime_add_in_range [OF assms(1,2) this] obtain t' where
    "datetime_add t (ms * 1000) = Inr t'"
    by blast
  then show ?thesis
    by (simp add: datetime_add_cases split: if_splits)
qed


lemma shifted_cases:
  assumes "compile_format fmt = Some items"
  shows "shifted t (ms * 1000) fmt =
     (if date_in_range (day_of_sum t ms)
      then Inr (concat (map (render
             \<lparr>ordinal = day_of_sum t ms,
              hour = (time_of_day_us t + ms * 1000) mod DAY_US div 3600000000,
              minute = (time_of_day_us t + ms * 1000) mod DAY_US div 60000000 mod 60,
              second = (time_of_day_us t + ms * 1000) mod DAY_US div 1000000 mod 60,
              microsecond = (time_of_day_us t + ms * 1000) mod DAY_US mod 1000000\<rparr>) items))
      else Inl (OverflowError DateOutOfRange))"
  by (simp add: shifted_def datetime_add_cases strftime_Inr [OF assms])

lemma shifted_wraps:
  assumes "compile_format fmt = Some items" and "date_in_range (day_of_sum t ms)"
  shows "\<exists>u. shifted t (ms * 1000) fmt = Inr (concat (map (render u) items)) \<and> valid_time u
           \<and> time_of_day_us u = (time_of_day_us t + ms * 1000) mod DAY_US"
proof -
  from assms(2) obtain u where a: "datetime_add t (ms * 1000) = Inr u"
    by (simp add: datetime_add_cases)
  from datetime_add_Inr [OF a] a show ?thesis
    by (auto simp: shifted_def strftime_Inr [OF assms(1)])
qed

lemma midnight_parse:
  "parse_range (''23:59:59,000 --> 23:59:59,000'' @ [newline]) DEFAULT_FORMAT =
     Inr (\<lparr>ordinal = 693596, hour = 23, minute = 59, second = 59, microsecond = 0\<rparr>,
          \<lparr>ordinal = 693596, hour = 23, minute = 59, second = 59, microsecond = 0\<rparr>)"
  by code_simp

lemma written_range_parse:
  "parse_range (''00:00:01,000000 --> 00:00:03,500000'' @ [newline]) DEFAULT_FORMAT =
     Inr (\<lparr>ordinal = 693596, hour = 0, minute = 0, second = 1, microsecond = 0\<rparr>,
          \<lparr>ordinal = 693596, hour = 0, minute = 0, second = 3, microsecond = 500000\<rparr>)"
  by code_simp

lemma written_range_strftime:
  "strftime \<lparr>ordinal = 693596, hour = 0, minute = 0, second = 1, microsecond = 0\<rparr>
     DEFAULT_FORMAT = Inr ''00:00:01,000000''
   \<and> strftime \<lparr>ordinal = 693596, hour = 0, minute = 0, second = 3, microsecond = 500000\<rparr>
     DEFAULT_FORMAT = Inr ''00:00:03,500000''"
  by code_simp

text \<open>
  C4 (as amended): take a format of the modelled fragment that shows hours, minutes,
  seconds and the fraction and has no marker in it, a range line that parses under it, and
  an offset \<open>d\<close> that takes neither timestamp across midnight. Shifting the line by \<open>+d\<close>
  gives the two timestamps moved by \<open>d\<close> and formatted; shifting that line by \<open>-d\<close> gives
  the line's own two timestamps formatted, joined by \<open>" --> "\<close> and ended by a newline. So
  the original text comes back exactly when the line is already in that form.
\<close>

theorem shift_round_trip:
  assumes c: "compile_format fmt = Some items"
    and a: "set (directives items) = {Dir_H, Dir_M, Dir_S, Dir_f}"
    and m: "\<not> contains RANGE_MARKER fmt"
    and p: "parse_range line fmt = Inr (ts1, ts2)"
    and w1: "0 \<le> time_of_day_us ts1 + d * 1000" "time_of_day_us ts1 + d * 1000 < DAY_US"
    and w2: "0 \<le> time_of_day_us ts2 + d * 1000" "time_of_day_us ts2 + d * 1000 < DAY_US"
  shows "\<exists>u1 u2 o1 o2 s1 s2.
           valid_time u1 \<and> time_of_day_us u1 = time_of_day_us ts1 + d * 1000
           \<and> valid_time u2 \<and> time_of_day_us u2 = time_of_day_us ts2 + d * 1000
           \<and> strftime u1 fmt = Inr o1 \<and> strftime u2 fmt = Inr o2
           \<and> strftime ts1 fmt = Inr s1 \<and> strftime ts2 fmt = Inr s2
           \<and> increment_line line d fmt = Inr (o1 @ '' --> '' @ o2 @ [newline])
           \<and> increment_line (o1 @ '' --> '' @ o2 @ [newline]) (- d) fmt
               = Inr (s1 @ '' --> '' @ s2 @ [newline])
           \<and> (line = s1 @ '' --> '' @ s2 @ [newline]
                \<longrightarrow> increment_line (o1 @ '' --> '' @ o2 @ [newline]) (- d) fmt = Inr line)"
proof -
  from parse_range_valid [OF p] have v: "valid_time ts1" "ordinal ts1 = EPOCH_ORDINAL"
    "valid_time ts2" "ordinal ts2 = EPOCH_ORDINAL"
    by auto
  from increment_line_no_wrap [OF c p v w1 w2] obtain u1 u2 where
    forth: "increment_line line d fmt =
             Inr (concat (map (render u1) items) @ '' --> ''
                    @ concat (map (render u2) items) @ [newline])"
    and u: "valid_time u1" "time_of_day_us u1 = time_of_day_us ts1 + d * 1000"
      "valid_time u2" "time_of_day_us u2 = time_of_day_us ts2 + d * 1000"
    by blast
  let ?o1 = "concat (map (render u1) items)" and ?o2 = "concat (map (render u2) items)"
  let ?s1 = "concat (map (render ts1) items)" and ?s2 = "concat (map (render ts2) items)"
  let ?forth = "?o1 @ '' --> '' @ ?o2 @ [newline]"
  have p': "parse_range ?forth fmt = Inr (shown items u1, shown items u2)"
    by (rule parse_range_written [OF c m u(1,3)])
  have s: "time_of_day_us (shown items u1) + (- d) * 1000 = time_of_day_us ts1"
    "time_of_day_us (shown items u2) + (- d) * 1000 = time_of_day_us ts2"
    using u(2,4) by (simp_all add: shown_all [OF a])
  from time_of_day_bounds [OF v(1)] time_of_day_bounds [OF v(3)]
  have w': "0 \<le> time_of_day_us (shown items u1) + (- d) * 1000"
    "time_of_day_us (shown items u1) + (- d) * 1000 < DAY_US"
    "0 \<le> time_of_day_us (shown items u2) + (- d) * 1000"
    "time_of_day_us (shown items u2) + (- d) * 1000 < DAY_US"
    unfolding s by simp_all
  from increment_line_no_wrap [OF c p' shown_valid [OF u(1)] shown_ordinal
      shown_valid [OF u(3)] shown_ordinal w']
  obtain x1 x2 where
    bk: "increment_line ?forth (- d) fmt =
             Inr (concat (map (render x1) items) @ '' --> ''
                    @ concat (map (render x2) items) @ [newline])"
    and x: "valid_time x1" "time_of_day_us x1 = time_of_day_us (shown items u1) + (- d) * 1000"
      "valid_time x2" "time_of_day_us x2 = time_of_day_us (shown items u2) + (- d) * 1000"
    by blast
  have "time_of_day_us x1 = time_of_day_us ts1" "time_of_day_us x2 = time_of_day_us ts2"
    using x(2,4) s by simp_all
  then have "map (render x1) items = map (render ts1) items"
    "map (render x2) items = map (render ts2) items"
    using render_same_time [OF x(1) v(1)] render_same_time [OF x(3) v(3)] by simp_all
  with bk have bck: "increment_line ?forth (- d) fmt = Inr (?s1 @ '' --> '' @ ?s2 @ [newline])"
    by simp
  then have same: "line = ?s1 @ '' --> '' @ ?s2 @ [newline]
                \<longrightarrow> increment_line ?forth (- d) fmt = Inr line"
    by simp
  note f = strftime_Inr [OF c]
  from u f [of u1] f [of u2] f [of ts1] f [of ts2] forth bck same show ?thesis
    by blast
qed

theorem shift_round_trip_witness:
  "compile_format DEFAULT_FORMAT = Some default_items
   \<and> set (directives default_items) = {Dir_H, Dir_M, Dir_S, Dir_f}
   \<and> \<not> contains RANGE_MARKER DEFAULT_FORMAT
   \<and> parse_range (''00:00:01,000000 --> 00:00:03,500000'' @ [newline]) DEFAULT_FORMAT =
       Inr (\<lparr>ordinal = 693596, hour = 0, minute = 0, second = 1, microsecond = 0\<rparr>,
            \<lparr>ordinal = 693596, hour = 0, minute = 0, second = 3, microsecond = 500000\<rparr>)
   \<and> (\<exists>out.
         increment_line (''00:00:01,000000 --> 00:00:03,500000'' @ [newline]) 1500
           DEFAULT_FORMAT = Inr out
         \<and> increment_line out (- 1500) DEFAULT_FORMAT
             = Inr (''00:00:01,000000 --> 00:00:03,500000'' @ [newline]))"
proof -
  let ?t1 = "\<lparr>ordinal = 693596, hour = 0, minute = 0, second = 1, microsecond = 0\<rparr>"
  let ?t2 = "\<lparr>ordinal = 693596, hour = 0, minute = 0, second = 3, microsecond = 500000\<rparr>"
  let ?line = "''00:00:01,000000 --> 00:00:03,500000'' @ [newline]"
  have w: "0 \<le> time_of_day_us ?t1 + 1500 * 1000" "time_of_day_us ?t1 + 1500 * 1000 < DAY_US"
    "0 \<le> time_of_day_us ?t2 + 1500 * 1000" "time_of_day_us ?t2 + 1500 * 1000 < DAY_US"
    by (simp_all add: time_of_day_us_def DAY_US_def)
  from shift_round_trip [OF default_compiles default_shows_all default_no_marker
      written_range_parse w]
  obtain o1 o2 s1 s2 where
    s: "strftime ?t1 DEFAULT_FORMAT = Inr s1" "strftime ?t2 DEFAULT_FORMAT = Inr s2"
    and f: "increment_line ?line 1500 DEFAULT_FORMAT = Inr (o1 @ '' --> '' @ o2 @ [newline])"
    and b: "?line = s1 @ '' --> '' @ s2 @ [newline]
       \<longrightarrow> increment_line (o1 @ '' --> '' @ o2 @ [newline]) (- 1500) DEFAULT_FORMAT = Inr ?line"
    by blast
  from s written_range_strftime have "s1 = ''00:00:01,000000''" "s2 = ''00:00:03,500000''"
    by simp_all
  with b have "increment_line (o1 @ '' --> '' @ o2 @ [newline]) (- 1500) DEFAULT_FORMAT
      = Inr ?line"
    by simp
  with f default_compiles default_shows_all default_no_marker written_range_parse
  show ?thesis by blast
qed

text \<open>
  The claim as stated fails on a line with other spacing than the program writes, and,
  for a format that does not show the seconds, even on a line as the program writes it.
\<close>

theorem shift_round_trip_counterexample:
  "increment_line (''00:00:01,000000  -->  00:00:03,500000'' @ [newline]) 1500 DEFAULT_FORMAT
     = Inr (''00:00:02,500000 --> 00:00:05,000000'' @ [newline])
   \<and> increment_line (''00:00:02,500000 --> 00:00:05,000000'' @ [newline]) (- 1500)
       DEFAULT_FORMAT
     = Inr (''00:00:01,000000 --> 00:00:03,500000'' @ [newline])
   \<and> ''00:00:01,000000 --> 00:00:03,500000'' @ [newline]
     \<noteq> ''00:00:01,000000  -->  00:00:03,500000'' @ [newline]
   \<and> increment_line (''00:01 --> 00:02'' @ [newline]) 30000 ''%H:%M''
     = Inr (''00:01 --> 00:02'' @ [newline])
   \<and> increment_line (''00:01 --> 00:02'' @ [newline]) (- 30000) ''%H:%M''
     = Inr (''00:00 --> 00:01'' @ [newline])"
  by code_simp

text \<open>
  C5 (as amended): under a format of the modelled fragment, for a range line that parses
  and any offset \<open>d\<close>: if the days on which the two shifted timestamps fall are days that a
  \<open>datetime\<close> can hold (years 1 to 9999), the line that comes out shows for each timestamp
  the time of day (t + d) mod 24 h, and the days that the addition carried are not shown;
  otherwise the operation ends with OverflowError. Every offset between -59926608000000 and
  255611203200000 ms is of the first kind.
\<close>

theorem shift_wraps_modulo_24h:
  assumes c: "compile_format fmt = Some items"
    and p: "parse_range line fmt = Inr (ts1, ts2)"
  shows "(if date_in_range (day_of_sum ts1 d) \<and> date_in_range (day_of_sum ts2 d)
          then \<exists>u1 u2. increment_line line d fmt =
                   Inr (concat (map (render u1) items) @ '' --> ''
                          @ concat (map (render u2) items) @ [newline])
                 \<and> valid_time u1
                 \<and> time_of_day_us u1 = (time_of_day_us ts1 + d * 1000) mod DAY_US
                 \<and> valid_time u2
                 \<and> time_of_day_us u2 = (time_of_day_us ts2 + d * 1000) mod DAY_US
          else \<exists>x. increment_line line d fmt = Inl (OverflowError x))
         \<and> (- 59926608000000 \<le> d \<and> d \<le> 255611203200000
              \<longrightarrow> date_in_range (day_of_sum ts1 d) \<and> date_in_range (day_of_sum ts2 d))"
proof -
  from parse_range_valid [OF p] have v: "valid_time ts1" "ordinal ts1 = EPOCH_ORDINAL"
    "valid_time ts2" "ordinal ts2 = EPOCH_ORDINAL"
    by auto
  have safe: "- 59926608000000 \<le> d \<and> d \<le> 255611203200000
              \<longrightarrow> date_in_range (day_of_sum ts1 d) \<and> date_in_range (day_of_sum ts2 d)"
    using safe_offsets [OF v(1,2)] safe_offsets [OF v(3,4)] by blast
  let ?ok = "date_in_range (day_of_sum ts1 d) \<and> date_in_range (day_of_sum ts2 d)"
  let ?wrapped = "\<exists>u1 u2. increment_line line d fmt =
                   Inr (concat (map (render u1) items) @ '' --> ''
                          @ concat (map (render u2) items) @ [newline])
                 \<and> valid_time u1
                 \<and> time_of_day_us u1 = (time_of_day_us ts1 + d * 1000) mod DAY_US
                 \<and> valid_time u2
                 \<and> time_of_day_us u2 = (time_of_day_us ts2 + d * 1000) mod DAY_US"
  let ?overflow = "\<exists>x. increment_line line d fmt = Inl (OverflowError x)"
  have "if ?ok then ?wrapped else ?overflow"
  proof (cases ?ok)
    case True
    then have r1: "date_in_range (day_of_sum ts1 d)" and r2: "date_in_range (day_of_sum ts2 d)"
      by blast+
    have td: "timedelta d = Inr (d * 1000)"
      by (rule date_in_range_timedelta [OF v(1,2) r1])
    from shifted_wraps [OF c r1] obtain u1 where
      1: "shifted ts1 (d * 1000) fmt = Inr (concat (map (render u1) items))" "valid_time u1"
      "time_of_day_us u1 = (time_of_day_us ts1 + d * 1000) mod DAY_US"
      by blast
    from shifted_wraps [OF c r2] obtain u2 where
      2: "shifted ts2 (d * 1000) fmt = Inr (concat (map (render u2) items))" "valid_time u2"
      "time_of_day_us u2 = (time_of_day_us ts2 + d * 1000) mod DAY_US"
      by blast
    have "increment_line line d fmt =
            Inr (concat (map (render u1) items) @ '' --> ''
                   @ concat (map (render u2) items) @ [newline])"
      by (simp add: increment_line_def p td 1(1) 2(1))
    with 1(2,3) 2(2,3) have ?wrapped
      by blast
    then show ?thesis
      unfolding if_P [OF True] .
  next
    case False
    have ?overflow
    proof (cases "timedelta d = Inr (d * 1000)")
      case td: True
      show ?thesis
      proof (cases "date_in_range (day_of_sum ts1 d)")
        case r1: True
        with False have "\<not> date_in_range (day_of_sum ts2 d)"
          by blast
        then show ?thesis
          by (simp add: increment_line_def p td shifted_cases [OF c] r1)
      next
        case r1: False
        then show ?thesis
          by (simp add: increment_line_def p td shifted_cases [OF c])
      qed
    next
      case ntd: False
      with timedelta_cases [of d] have "timedelta d = Inl (OverflowError DaysTooLarge)"
        by blast
      then show ?thesis
        by (simp add: increment_line_def p)
    qed
    then show ?thesis
      unfolding if_not_P [OF False] .
  qed
  moreover note safe
  ultimately show ?thesis
    by (rule conjI)
qed

theorem shift_wraps_modulo_24h_witness:
  "compile_format DEFAULT_FORMAT = Some default_items
   \<and> parse_range (''23:59:59,000 --> 23:59:59,000'' @ [newline]) DEFAULT_FORMAT =
       Inr (\<lparr>ordinal = 693596, hour = 23, minute = 59, second = 59, microsecond = 0\<rparr>,
            \<lparr>ordinal = 693596, hour = 23, minute = 59, second = 59, microsecond = 0\<rparr>)
   \<and> date_in_range (day_of_sum
        \<lparr>ordinal = 693596, hour = 23, minute = 59, second = 59, microsecond = 0\<rparr> 2000)
   \<and> (\<exists>u1 u2.
         increment_line (''23:59:59,000 --> 23:59:59,000'' @ [newline]) 2000 DEFAULT_FORMAT
           = Inr (concat (map (render u1) default_items) @ '' --> ''
                    @ concat (map (render u2) default_items) @ [newline])
         \<and> valid_time u1 \<and> time_of_day_us u1 = 1000000
         \<and> valid_time u2 \<and> time_of_day_us u2 = 1000000)
   \<and> increment_line (''23:59:59,000 --> 23:59:59,000'' @ [newline]) 2000 DEFAULT_FORMAT
       = Inr (''00:00:01,000000 --> 00:00:01,000000'' @ [newline])"
proof -
  let ?t = "\<lparr>ordinal = 693596, hour = 23, minute = 59, second = 59, microsecond = 0\<rparr>"
  have e: "(time_of_day_us ?t + 2000 * 1000) mod DAY_US = 1000000"
    by (simp add: time_of_day_us_def DAY_US_def)
  have r: "date_in_range (day_of_sum ?t 2000)"
    by (simp add: date_in_range_def day_of_sum_def time_of_day_us_def DAY_US_def
        MIN_ORDINAL_def MAX_ORDINAL_def)
  have x: "increment_line (''23:59:59,000 --> 23:59:59,000'' @ [newline]) 2000 DEFAULT_FORMAT
       = Inr (''00:00:01,000000 --> 00:00:01,000000'' @ [newline])"
    by code_simp
  from shift_wraps_modulo_24h [OF default_compiles midnight_parse, of 2000] r
  have "\<exists>u1 u2.
         increment_line (''23:59:59,000 --> 23:59:59,000'' @ [newline]) 2000 DEFAULT_FORMAT
           = Inr (concat (map (render u1) default_items) @ '' --> ''
                    @ concat (map (render u2) default_items) @ [newline])
         \<and> valid_time u1
         \<and> time_of_day_us u1 = (time_of_day_us ?t + 2000 * 1000) mod DAY_US
         \<and> valid_time u2
         \<and> time_of_day_us u2 = (time_of_day_us ?t + 2000 * 1000) mod DAY_US"
    by (simp only: if_True simp_thms)
  then have "\<exists>u1 u2.
         increment_line (''23:59:59,000 --> 23:59:59,000'' @ [newline]) 2000 DEFAULT_FORMAT
           = Inr (concat (map (render u1) default_items) @ '' --> ''
                    @ concat (map (render u2) default_items) @ [newline])
         \<and> valid_time u1 \<and> time_of_day_us u1 = 1000000
         \<and> valid_time u2 \<and> time_of_day_us u2 = 1000000"
    by (simp only: e)
  with default_compiles midnight_parse r x show ?thesis
    by blast
qed

text \<open>
  The claim as stated fails on an offset that takes the date past the year 9999 or before
  the year 1: the addition raises OverflowError.
\<close>

theorem shift_wraps_modulo_24h_counterexample:
  "increment_line (''23:59:59,000 --> 23:59:59,000'' @ [newline]) 300000000000000
     DEFAULT_FORMAT = Inl (OverflowError DateOutOfRange)
   \<and> increment_line (''00:00:00,000 --> 00:00:00,000'' @ [newline]) (- 59926608000001)
     DEFAULT_FORMAT = Inl (OverflowError DateOutOfRange)"
  by code_simp





end
